theory Spec2Isabelle
  imports Main "HOL-Library.Word"
begin

section \<open>Query log and rolling top statistics of AdGuardHome\<close>

text \<open>
  A shallow embedding of \<^verbatim>\<open>home/control_querylog.go\<close> (the configuration handler
  and the hourly top-statistics aggregator \<^verbatim>\<open>dayTop\<close>/\<^verbatim>\<open>hourTop\<close>) and of
  \<^verbatim>\<open>querylog/querylog_file.go\<close> (flushing the pending buffer to the log file,
  the self-check of the encoded bytes, and the replay of the persisted files).

  Mutexes are left out: every function is modelled as one atomic step on the state it
  reads and writes. Log output is left out as well.
\<close>

subsection \<open>Errors, panics, machine integers\<close>

text \<open>
  Go errors are values. \<open>ExtError\<close> stands for an error produced by a library the
  source calls (\<^verbatim>\<open>encoding/json\<close>, \<^verbatim>\<open>miekg/dns\<close>, \<^verbatim>\<open>os\<close>); the other constructors
  are the errors the source itself creates or compares against.
\<close>

datatype error =
    KeyNotFoundError
  | NonIntValue
  | DecodedBufferDiffers
  | CheckFail nat nat
  | ExtError string

text \<open>
  A run-time panic (an index out of range) is not an error value: it unwinds through
  every caller of these files, none of which recovers. \<open>Panics\<close> is that outcome.
\<close>

datatype 'a outcome = Panics | Returns 'a

text \<open>
  Go's \<^verbatim>\<open>int\<close>, \<^verbatim>\<open>int64\<close> and \<^verbatim>\<open>time.Duration\<close> are taken as 64-bit two's
  complement integers: a value is an \<open>int\<close> and every arithmetic result is wrapped.
\<close>

definition int64_wrap :: "int \<Rightarrow> int" where
  "int64_wrap x = (x + 2 ^ 63) mod 2 ^ 64 - 2 ^ 63"

definition maxInt64 :: int where
  "maxInt64 = 2 ^ 63 - 1"

definition minInt64 :: int where
  "minInt64 = - (2 ^ 63)"

text \<open>Go's integer division truncates towards zero.\<close>

definition go_quot :: "int \<Rightarrow> int \<Rightarrow> int" where
  "go_quot a b = sgn a * sgn b * (\<bar>a\<bar> div \<bar>b\<bar>)"

subsection \<open>Time\<close>

text \<open>
  A \<^verbatim>\<open>time.Time\<close> is modelled by its instant in nanoseconds since the Unix epoch.
  \<^verbatim>\<open>t.Sub(u)\<close> is the difference as a \<^verbatim>\<open>Duration\<close>, saturated at the largest and
  smallest duration; \<^verbatim>\<open>t.After(u)\<close> compares the instants; \<^verbatim>\<open>t.Unix()\<close> is the
  number of whole seconds.
\<close>

definition time_Sub :: "int \<Rightarrow> int \<Rightarrow> int" where
  "time_Sub t u = (if t - u > maxInt64 then maxInt64
                   else if t - u < minInt64 then minInt64 else t - u)"

definition time_After :: "int \<Rightarrow> int \<Rightarrow> bool" where
  "time_After t u = (t > u)"

definition time_Unix :: "int \<Rightarrow> int" where
  "time_Unix t = t div 1000000000"

definition Hour :: int where
  "Hour = 3600000000000"

text \<open>
  \<^verbatim>\<open>int(d.Hours())\<close>: \<^verbatim>\<open>Hours\<close> returns the duration as a floating-point number of
  hours and the conversion to \<^verbatim>\<open>int\<close> drops the fraction, towards zero. The model
  takes the exact quotient of the nanosecond count, truncated towards zero; the
  rounding of the floating-point sum is not modelled.
\<close>

definition hoursOf :: "int \<Rightarrow> int" where
  "hoursOf d = go_quot d Hour"

subsection \<open>Strings\<close>

text \<open>
  \<^verbatim>\<open>strings.TrimSuffix(s, suffix)\<close> removes one trailing occurrence of the suffix.
  \<^verbatim>\<open>strings.ToLower\<close> is modelled on ASCII, where it maps \<open>A\<close>..\<open>Z\<close> to
  \<open>a\<close>..\<open>z\<close> and leaves every other byte alone; the names \<^verbatim>\<open>dns.Msg\<close> holds are
  ASCII in presentation format.
\<close>

definition TrimSuffix :: "string \<Rightarrow> string \<Rightarrow> string" where
  "TrimSuffix s suffix =
     (if length suffix \<le> length s \<and> drop (length s - length suffix) s = suffix
      then take (length s - length suffix) s else s)"

definition lowerChar :: "char \<Rightarrow> char" where
  "lowerChar c =
     (case map_of (zip ''ABCDEFGHIJKLMNOPQRSTUVWXYZ'' ''abcdefghijklmnopqrstuvwxyz'') c of
        Some l \<Rightarrow> l
      | None \<Rightarrow> c)"

definition ToLower :: "string \<Rightarrow> string" where
  "ToLower s = map lowerChar s"

subsection \<open>The LRU cache of gcache\<close>

text \<open>
  Modelled from the spec: the \<^verbatim>\<open>gcache\<close> library is not part of the sources. The
  glossary's LRU map is a "bounded key to count structure evicting the
  least-recently-used key on overflow"; the definitions below follow the library's
  \<^verbatim>\<open>LRUCache\<close> built by \<^verbatim>\<open>gcache.New(size).LRU().Build()\<close> with no loader and no
  expiration. The cache stores values of any type (\<^verbatim>\<open>interface{}\<close>); \<open>VInt\<close> is a value
  of dynamic type \<^verbatim>\<open>int\<close>, \<open>VOther\<close> any other value. \<open>citems\<close> is the eviction
  list, most recently used first, with one pair per key.
\<close>

datatype cval = VInt int | VOther

record cache =
  csize :: int
  citems :: "(string \<times> cval) list"

definition gcache_New :: "int \<Rightarrow> cache" where
  "gcache_New n = \<lparr>csize = n, citems = []\<rparr>"

definition removeKey :: "string \<Rightarrow> (string \<times> cval) list \<Rightarrow> (string \<times> cval) list" where
  "removeKey k xs = filter (\<lambda>p. fst p \<noteq> k) xs"

text \<open>\<^verbatim>\<open>Get\<close>: a hit moves the item to the front; a miss is \<^verbatim>\<open>KeyNotFoundError\<close>.\<close>

definition cache_Get :: "string \<Rightarrow> cache \<Rightarrow> (error + cval) \<times> cache" where
  "cache_Get k c =
     (case map_of (citems c) k of
        None \<Rightarrow> (Inl KeyNotFoundError, c)
      | Some v \<Rightarrow> (Inr v, c\<lparr>citems := (k, v) # removeKey k (citems c)\<rparr>))"

text \<open>
  \<^verbatim>\<open>Set\<close>: an existing item gets the value and moves to the front; a new key first
  evicts the item at the back when the list already holds \<open>csize\<close> items, then is
  pushed to the front. With no serializer configured \<^verbatim>\<open>Set\<close> returns no error.
\<close>

definition cache_Set :: "string \<Rightarrow> cval \<Rightarrow> cache \<Rightarrow> error option \<times> cache" where
  "cache_Set k v c =
     (case map_of (citems c) k of
        Some _ \<Rightarrow> (None, c\<lparr>citems := (k, v) # removeKey k (citems c)\<rparr>)
      | None \<Rightarrow>
          (None, c\<lparr>citems := (k, v) #
             (if int (length (citems c)) \<ge> csize c then butlast (citems c) else citems c)\<rparr>))"

definition cache_Keys :: "cache \<Rightarrow> string list" where
  "cache_Keys c = map fst (citems c)"

subsection \<open>Log entries and DNS messages\<close>

text \<open>
  The fields of \<^verbatim>\<open>logEntry\<close> that the two files read. \<open>Question\<close> and \<open>Answer\<close>
  are the packed DNS messages (byte strings), \<open>Time\<close> the instant of the request,
  \<open>Elapsed\<close> a duration, \<open>IP\<close> the client, \<open>IsFiltered\<close> the field
  \<^verbatim>\<open>Result.IsFiltered\<close>.
\<close>

record logEntry =
  Question :: string
  Answer :: string
  IsFiltered :: bool
  Time :: int
  Elapsed :: int
  IP :: string

text \<open>An unpacked \<^verbatim>\<open>dns.Msg\<close>: the names of its question section.\<close>

record dnsQuestion =
  Name :: string

record dnsMsg =
  MsgQuestion :: "dnsQuestion list"

subsection \<open>Hour buckets\<close>

record hourTop =
  domains :: cache
  blocked :: cache
  clients :: cache

text \<open>
  \<^verbatim>\<open>hourTop.init\<close>; the constant \<^verbatim>\<open>queryLogTopSize\<close> is a parameter. The library
  refuses to build a cache of a size that is not positive, so the constant is
  positive in a program that starts.
\<close>

definition hourTop_init :: "int \<Rightarrow> hourTop" where
  "hourTop_init queryLogTopSize =
     \<lparr>domains = gcache_New queryLogTopSize,
      blocked = gcache_New queryLogTopSize,
      clients = gcache_New queryLogTopSize\<rparr>"

text \<open>\<^verbatim>\<open>hourTop.incrementValue(key, cache)\<close>, returning the error and the cache.\<close>

definition incrementValue :: "string \<Rightarrow> cache \<Rightarrow> error option \<times> cache" where
  "incrementValue key c =
     (case cache_Get key c of
        (Inl KeyNotFoundError, c1) \<Rightarrow> cache_Set key (VInt 1) c1
      | (Inl err, c1) \<Rightarrow> (Some err, c1)
      | (Inr (VInt cachedValue), c1) \<Rightarrow> cache_Set key (VInt (int64_wrap (cachedValue + 1))) c1
      | (Inr VOther, c1) \<Rightarrow> (Some NonIntValue, c1))"

definition incrementDomains :: "string \<Rightarrow> hourTop \<Rightarrow> error option \<times> hourTop" where
  "incrementDomains key h =
     (case incrementValue key (domains h) of (e, c) \<Rightarrow> (e, h\<lparr>domains := c\<rparr>))"

definition incrementBlocked :: "string \<Rightarrow> hourTop \<Rightarrow> error option \<times> hourTop" where
  "incrementBlocked key h =
     (case incrementValue key (blocked h) of (e, c) \<Rightarrow> (e, h\<lparr>blocked := c\<rparr>))"

definition incrementClients :: "string \<Rightarrow> hourTop \<Rightarrow> error option \<times> hourTop" where
  "incrementClients key h =
     (case incrementValue key (clients h) of (e, c) \<Rightarrow> (e, h\<lparr>clients := c\<rparr>))"

text \<open>
  \<^verbatim>\<open>hourTop.lockedGetValue(key, cache)\<close>: the pair \<^verbatim>\<open>(int, error)\<close> the source
  returns, and the cache, whose recency order the lookup changes.
\<close>

definition lockedGetValue :: "string \<Rightarrow> cache \<Rightarrow> (int \<times> error option) \<times> cache" where
  "lockedGetValue key c =
     (case cache_Get key c of
        (Inl KeyNotFoundError, c1) \<Rightarrow> ((0, None), c1)
      | (Inl err, c1) \<Rightarrow> ((0, Some err), c1)
      | (Inr (VInt v), c1) \<Rightarrow> ((v, None), c1)
      | (Inr VOther, c1) \<Rightarrow> ((0, Some NonIntValue), c1))"

subsection \<open>The aggregator\<close>

record dayTop =
  limit :: int
  hours :: "hourTop list"

text \<open>
  \<^verbatim>\<open>dayTop.addEntry(entry, q, now)\<close>. Indexing \<^verbatim>\<open>d.hours[hour]\<close> panics when
  \<open>hour\<close> is negative or not below the length of the slice. \<open>hostnameOf\<close> is
  the expression that computes \<^verbatim>\<open>hostname\<close> from the first question. The bucket
  \<^verbatim>\<open>d.hours[hour]\<close> is a pointer and the increments change it in place, also when
  a later increment fails: \<open>putHour\<close> writes the bucket back at its index.
\<close>

definition hostnameOf :: "dnsMsg \<Rightarrow> string" where
  "hostnameOf q = ToLower (TrimSuffix (Name (MsgQuestion q ! 0)) ''.'')"

definition putHour :: "dayTop \<Rightarrow> int \<Rightarrow> hourTop \<Rightarrow> dayTop" where
  "putHour d hour h = d\<lparr>hours := (hours d)[nat hour := h]\<rparr>"

definition addEntry ::
  "logEntry \<Rightarrow> dnsMsg \<Rightarrow> int \<Rightarrow> dayTop \<Rightarrow> (error option \<times> dayTop) outcome" where
  "addEntry entry q now d =
     (let hour = hoursOf (time_Sub now (Time entry)) in
      if hour \<ge> limit d then Returns (None, d)
      else if length (MsgQuestion q) = 0 then Returns (None, d)
      else
        let hostname = hostnameOf q in
        if hostname = [] then Returns (None, d)
        else if hour < 0 \<or> hour \<ge> int (length (hours d)) then Panics
        else
          (case incrementDomains hostname (hours d ! nat hour) of
             (Some err, h1) \<Rightarrow> Returns (Some err, putHour d hour h1)
           | (None, h1) \<Rightarrow>
               (case (if IsFiltered entry then incrementBlocked hostname h1 else (None, h1)) of
                  (Some err, h2) \<Rightarrow> Returns (Some err, putHour d hour h2)
                | (None, h2) \<Rightarrow>
                    (case (if length (IP entry) > 0 then incrementClients (IP entry) h2
                           else (None, h2)) of
                       (Some err, h3) \<Rightarrow> Returns (Some err, putHour d hour h3)
                     | (None, h3) \<Rightarrow> Returns (None, putHour d hour h3)))))"

text \<open>
  A slice expression \<^verbatim>\<open>s[:n]\<close>. It is taken to panic unless \<open>0 \<le> n \<le> len(s)\<close>. Go
  allows \<open>n\<close> up to the capacity of the backing array, where the result exposes
  slots that are not elements of \<open>s\<close> (nil pointers here, whose first use panics);
  the list model has no capacity, so that case is counted as the panic.
\<close>

definition sliceTo :: "'a list \<Rightarrow> int \<Rightarrow> 'a list outcome" where
  "sliceTo xs n = (if 0 \<le> n \<and> n \<le> int (length xs) then Returns (take (nat n) xs) else Panics)"

text \<open>
  \<^verbatim>\<open>dayTop.init(limit)\<close>, which is also the resize operation: it is called again
  with the new limit on an aggregator that already has buckets. The loop builds
  \<open>limit\<close> fresh buckets (none when \<open>limit\<close> is not positive).
\<close>

definition dayTop_init :: "int \<Rightarrow> int \<Rightarrow> dayTop \<Rightarrow> dayTop outcome" where
  "dayTop_init queryLogTopSize newLimit d =
     (let a = replicate (nat newLimit) (hourTop_init queryLogTopSize) in
      if length (hours d) = 0 then Returns (d\<lparr>hours := a, limit := newLimit\<rparr>)
      else if newLimit > limit d then
        (case sliceTo a (newLimit - limit d) of
           Panics \<Rightarrow> Panics
         | Returns a' \<Rightarrow> Returns (d\<lparr>hours := hours d @ a', limit := newLimit\<rparr>))
      else if newLimit < limit d then
        (case sliceTo (hours d) (limit d - newLimit) of
           Panics \<Rightarrow> Panics
         | Returns hs \<Rightarrow> Returns (d\<lparr>hours := hs, limit := newLimit\<rparr>))
      else Returns (d\<lparr>limit := newLimit\<rparr>))"

text \<open>The zero value of \<^verbatim>\<open>dayTop\<close>, on which \<^verbatim>\<open>init\<close> is first called.\<close>

definition dayTop_zero :: dayTop where
  "dayTop_zero = \<lparr>limit = 0, hours = []\<rparr>"

text \<open>\<^verbatim>\<open>dayTop.rotateHourlyTop()\<close>.\<close>

definition rotateHourlyTop :: "int \<Rightarrow> dayTop \<Rightarrow> dayTop outcome" where
  "rotateHourlyTop queryLogTopSize d =
     (case sliceTo (hourTop_init queryLogTopSize # hours d) (limit d) of
        Panics \<Rightarrow> Panics
      | Returns hs \<Rightarrow> Returns (d\<lparr>hours := hs\<rparr>))"

text \<open>
  \<^verbatim>\<open>dayTop.getStatsTop(hourOffset)\<close>. A result map is a \<^verbatim>\<open>map[string]int\<close>, where
  reading a missing key gives 0. The inner function \<^verbatim>\<open>do\<close> walks the keys of one
  cache, as \<^verbatim>\<open>Keys()\<close> returned them before the walk; the library returns them in
  no specified order, the model in the order of the eviction list. Every key of a
  cache of this program is a string, so the \<^verbatim>\<open>!ok\<close> branch of \<^verbatim>\<open>do\<close> is never taken.
  The lookups reorder the caches, so the aggregator is returned with the result.
\<close>

record StatsTop =
  Domains :: "string \<rightharpoonup> int"
  Blocked :: "string \<rightharpoonup> int"
  Clients :: "string \<rightharpoonup> int"

definition mapRead :: "(string \<rightharpoonup> int) \<Rightarrow> string \<Rightarrow> int" where
  "mapRead m k = (case m k of None \<Rightarrow> 0 | Some v \<Rightarrow> v)"

fun do_keys :: "string list \<Rightarrow> cache \<Rightarrow> (string \<rightharpoonup> int) \<Rightarrow> cache \<times> (string \<rightharpoonup> int)" where
  "do_keys [] c result = (c, result)"
| "do_keys (key # keys) c result =
     (case lockedGetValue key c of
        ((v, Some err), c1) \<Rightarrow> (c1, result)
      | ((v, None), c1) \<Rightarrow> do_keys keys c1 (result(key \<mapsto> int64_wrap (mapRead result key + v))))"

definition statsHour :: "hourTop \<Rightarrow> StatsTop \<Rightarrow> hourTop \<times> StatsTop" where
  "statsHour h s =
     (case do_keys (cache_Keys (domains h)) (domains h) (Domains s) of (cd, rd) \<Rightarrow>
      case do_keys (cache_Keys (blocked h)) (blocked h) (Blocked s) of (cb, rb) \<Rightarrow>
      case do_keys (cache_Keys (clients h)) (clients h) (Clients s) of (cc, rc) \<Rightarrow>
        (\<lparr>domains = cd, blocked = cb, clients = cc\<rparr>,
         \<lparr>Domains = rd, Blocked = rb, Clients = rc\<rparr>))"

fun statsHours :: "nat \<Rightarrow> hourTop list \<Rightarrow> StatsTop \<Rightarrow> hourTop list \<times> StatsTop" where
  "statsHours 0 hs s = (hs, s)"
| "statsHours (Suc n) [] s = ([], s)"
| "statsHours (Suc n) (h # hs) s =
     (case statsHour h s of (h', s') \<Rightarrow>
      case statsHours n hs s' of (hs', s'') \<Rightarrow> (h' # hs', s''))"

definition getStatsTop :: "int \<Rightarrow> dayTop \<Rightarrow> StatsTop \<times> dayTop" where
  "getStatsTop hourOffset d =
     (let off = (if hourOffset > int (length (hours d)) then int (length (hours d))
                 else hourOffset) in
      case statsHours (nat off) (hours d)
             \<lparr>Domains = Map.empty, Blocked = Map.empty, Clients = Map.empty\<rparr> of
        (hs, s) \<Rightarrow> (s, d\<lparr>hours := hs\<rparr>))"

text \<open>
  A run of \<^verbatim>\<open>addEntry\<close> calls, one after the other, each with its own message and
  clock reading; the run ends at the first call that panics or returns an error.
\<close>

fun addEntries ::
  "(logEntry \<times> dnsMsg \<times> int) list \<Rightarrow> dayTop \<Rightarrow> (error option \<times> dayTop) outcome" where
  "addEntries [] d = Returns (None, d)"
| "addEntries ((entry, q, now) # rest) d =
     (case addEntry entry q now d of
        Panics \<Rightarrow> Panics
      | Returns (Some err, d') \<Rightarrow> Returns (Some err, d')
      | Returns (None, d') \<Rightarrow> addEntries rest d')"

text \<open>A run of \<^verbatim>\<open>incrementValue\<close> calls on one cache, ending at the first error.\<close>

fun incrementValues :: "string list \<Rightarrow> cache \<Rightarrow> error option \<times> cache" where
  "incrementValues [] c = (None, c)"
| "incrementValues (key # keys) c =
     (case incrementValue key c of
        (Some err, c1) \<Rightarrow> (Some err, c1)
      | (None, c1) \<Rightarrow> incrementValues keys c1)"

subsection \<open>The world outside: codec, DNS parser, files\<close>

text \<open>
  The libraries the query log calls are parameters of the model, collected in one
  record; \<open>'fs\<close> is the state of the file system.
  \<^item> \<open>jsonEncode\<close>: the bytes \<^verbatim>\<open>json.Encoder.Encode(entry)\<close> appends, or its error.
  \<^item> \<open>jsonDecoder\<close>: for the bytes of a stream, the results of the successive
    \<^verbatim>\<open>Decode\<close> calls a loop \<^verbatim>\<open>for d.More() { d.Decode(&entry) ... }\<close> makes until
    \<^verbatim>\<open>More\<close> reports the end of the stream. The list is finite: the decoder is
    taken to move on after a record it cannot decode. A decoder that returns the
    same error for ever while \<^verbatim>\<open>More\<close> stays true is outside the model.
  \<^item> \<open>dnsUnpack\<close>: \<^verbatim>\<open>dns.Msg.Unpack\<close>.
  \<^item> \<open>osOpenFile\<close>: \<^verbatim>\<open>os.OpenFile(name, O_WRONLY|O_CREATE|O_APPEND, 0644)\<close>;
    \<open>osWrite\<close>: \<^verbatim>\<open>f.Write(bytes)\<close> on the file so opened. Both return the error,
    if any, and the new state of the file system.
  \<^item> \<open>osNotExist\<close>: \<^verbatim>\<open>os.Stat(name)\<close> reporting that the file does not exist;
    \<open>osOpen\<close>: \<^verbatim>\<open>os.Open(name)\<close>, giving the bytes the reader yields.
  Two entries are compared by \<^verbatim>\<open>deep.Equal\<close> in the source and by equality of the
  modelled fields here.
\<close>

record 'fs world =
  jsonEncode :: "logEntry \<Rightarrow> error + string"
  jsonDecoder :: "string \<Rightarrow> (error + logEntry) list"
  dnsUnpack :: "string \<Rightarrow> error + dnsMsg"
  osOpenFile :: "string \<Rightarrow> 'fs \<Rightarrow> error option \<times> 'fs"
  osWrite :: "string \<Rightarrow> string \<Rightarrow> 'fs \<Rightarrow> error option \<times> 'fs"
  osNotExist :: "string \<Rightarrow> 'fs \<Rightarrow> bool"
  osOpen :: "string \<Rightarrow> 'fs \<Rightarrow> error + string"

subsection \<open>Flushing the pending buffer\<close>

text \<open>The fields of \<^verbatim>\<open>queryLog\<close> that \<^verbatim>\<open>querylog_file.go\<close> reads and writes.\<close>

record queryLog =
  logFile :: string
  confInterval :: int
  logBuffer :: "logEntry list"
  flushPending :: bool
  queryLogCache :: "logEntry list"

text \<open>The encoding loop of \<^verbatim>\<open>flushToFile\<close>, appending to the byte buffer \<open>b\<close>.\<close>

fun encodeEntries :: "(logEntry \<Rightarrow> error + string) \<Rightarrow> logEntry list \<Rightarrow> string \<Rightarrow> error + string" where
  "encodeEntries enc [] b = Inr b"
| "encodeEntries enc (entry # rest) b =
     (case enc entry of
        Inl err \<Rightarrow> Inl err
      | Inr bytes \<Rightarrow> encodeEntries enc rest (b @ bytes))"

text \<open>
  \<^verbatim>\<open>checkBuffer(buffer, b)\<close>. The loop decodes one record, then reads \<^verbatim>\<open>buffer[i]\<close>,
  which panics once more records are decoded than were buffered, then compares.
\<close>

fun checkLoop :: "logEntry list \<Rightarrow> (error + logEntry) list \<Rightarrow> nat \<Rightarrow> (error + nat) outcome" where
  "checkLoop buffer [] i = Returns (Inr i)"
| "checkLoop buffer (r # rs) i =
     (case r of
        Inl err \<Rightarrow> Returns (Inl err)
      | Inr entry \<Rightarrow>
          if i \<ge> length buffer then Panics
          else if entry \<noteq> buffer ! i then Returns (Inl DecodedBufferDiffers)
          else checkLoop buffer rs (Suc i))"

definition checkBuffer :: "'fs world \<Rightarrow> logEntry list \<Rightarrow> string \<Rightarrow> error option outcome" where
  "checkBuffer w buffer b =
     (case checkLoop buffer (jsonDecoder w b) 0 of
        Panics \<Rightarrow> Panics
      | Returns (Inl err) \<Rightarrow> Returns (Some err)
      | Returns (Inr i) \<Rightarrow>
          if i \<noteq> length buffer then Returns (Some (CheckFail (length buffer) i))
          else Returns None)"

text \<open>
  \<^verbatim>\<open>flushToFile(buffer)\<close>. The constant \<^verbatim>\<open>enableGzip\<close> is false, so the bytes
  written are the encoded bytes and the file is \<open>logFile\<close>.
\<close>

definition flushToFile ::
  "'fs world \<Rightarrow> queryLog \<Rightarrow> logEntry list \<Rightarrow> 'fs \<Rightarrow> (error option \<times> 'fs) outcome" where
  "flushToFile w l buffer fs =
     (if length buffer = 0 then Returns (None, fs)
      else
        (case encodeEntries (jsonEncode w) buffer [] of
           Inl err \<Rightarrow> Returns (Some err, fs)
         | Inr b \<Rightarrow>
             (case checkBuffer w buffer b of
                Panics \<Rightarrow> Panics
              | Returns (Some err) \<Rightarrow> Returns (Some err, fs)
              | Returns None \<Rightarrow>
                  (case osOpenFile w (logFile l) fs of
                     (Some err, fs1) \<Rightarrow> Returns (Some err, fs1)
                   | (None, fs1) \<Rightarrow>
                       (case osWrite w (logFile l) b fs1 of
                          (Some err, fs2) \<Rightarrow> Returns (Some err, fs2)
                        | (None, fs2) \<Rightarrow> Returns (None, fs2))))))"


subsection \<open>Replaying the persisted files\<close>

text \<open>
  The record loop of \<^verbatim>\<open>genericLoader\<close> over one file: \<open>onEntry\<close> and \<open>needMore\<close>
  are closures over a state \<open>'s\<close>, threaded through the loop. The counters
  \<^verbatim>\<open>i\<close>, \<^verbatim>\<open>over\<close> and \<^verbatim>\<open>sum\<close> only feed the debug line and are left out.
\<close>

fun loadRecords ::
  "(logEntry \<Rightarrow> 's \<Rightarrow> error option \<times> 's) \<Rightarrow> ('s \<Rightarrow> bool) \<Rightarrow> int \<Rightarrow> int \<Rightarrow>
   (error + logEntry) list \<Rightarrow> 's \<Rightarrow> error option \<times> 's" where
  "loadRecords onEntry needMore timeWindow now [] s = (None, s)"
| "loadRecords onEntry needMore timeWindow now (r # rs) s =
     (if \<not> needMore s then (None, s)
      else
        (case r of
           Inl err \<Rightarrow> loadRecords onEntry needMore timeWindow now rs s
         | Inr entry \<Rightarrow>
             if time_Sub now (Time entry) > timeWindow
             then loadRecords onEntry needMore timeWindow now rs s
             else
               (case onEntry entry s of
                  (Some err, s1) \<Rightarrow> (Some err, s1)
                | (None, s1) \<Rightarrow> loadRecords onEntry needMore timeWindow now rs s1)))"

fun loadFiles ::
  "'fs world \<Rightarrow> 'fs \<Rightarrow> (logEntry \<Rightarrow> 's \<Rightarrow> error option \<times> 's) \<Rightarrow> ('s \<Rightarrow> bool) \<Rightarrow> int \<Rightarrow> int \<Rightarrow>
   string list \<Rightarrow> 's \<Rightarrow> error option \<times> 's" where
  "loadFiles w fs onEntry needMore timeWindow now [] s = (None, s)"
| "loadFiles w fs onEntry needMore timeWindow now (file # files) s =
     (if \<not> needMore s then (None, s)
      else if osNotExist w file fs then loadFiles w fs onEntry needMore timeWindow now files s
      else
        (case osOpen w file fs of
           Inl err \<Rightarrow> loadFiles w fs onEntry needMore timeWindow now files s
         | Inr bytes \<Rightarrow>
             (case loadRecords onEntry needMore timeWindow now (jsonDecoder w bytes) s of
                (Some err, s1) \<Rightarrow> (Some err, s1)
              | (None, s1) \<Rightarrow> loadFiles w fs onEntry needMore timeWindow now files s1)))"

text \<open>
  \<^verbatim>\<open>genericLoader(onEntry, needMore, timeWindow)\<close>; \<open>now\<close> is the reading of the
  clock at its start. With \<^verbatim>\<open>enableGzip\<close> false the files are \<open>logFile\<close> and
  \<open>logFile.1\<close>.
\<close>

definition genericLoader ::
  "'fs world \<Rightarrow> 'fs \<Rightarrow> queryLog \<Rightarrow> (logEntry \<Rightarrow> 's \<Rightarrow> error option \<times> 's) \<Rightarrow> ('s \<Rightarrow> bool) \<Rightarrow> int \<Rightarrow> int \<Rightarrow>
   's \<Rightarrow> error option \<times> 's" where
  "genericLoader w fs l onEntry needMore timeWindow now s =
     loadFiles w fs onEntry needMore timeWindow now [logFile l, logFile l @ ''.1''] s"

text \<open>
  The closure \<^verbatim>\<open>onEntry\<close> of \<^verbatim>\<open>fillFromFile\<close>, on the recent cache
  \<^verbatim>\<open>l.queryLogCache\<close>; the constant \<^verbatim>\<open>queryLogSize\<close> is a parameter, taken to be
  non-negative, so that \<^verbatim>\<open>toremove\<close> never exceeds the length of the cache.
\<close>

definition fillOnEntry ::
  "'fs world \<Rightarrow> int \<Rightarrow> int \<Rightarrow> logEntry \<Rightarrow> logEntry list \<Rightarrow> error option \<times> logEntry list" where
  "fillOnEntry w queryLogSize now entry cache =
     (if length (Question entry) = 0 then (None, cache)
      else if time_After (Time entry) now then (None, cache)
      else
        (case dnsUnpack w (Question entry) of
           Inl err \<Rightarrow> (Some err, cache)
         | Inr q \<Rightarrow>
             if length (MsgQuestion q) \<noteq> 1 then (None, cache)
             else
               let cache1 = cache @ [entry] in
               if int (length cache1) > queryLogSize
               then (None, drop (nat (int (length cache1) - queryLogSize)) cache1)
               else (None, cache1)))"

text \<open>
  \<^verbatim>\<open>fillFromFile()\<close>: \<open>now\<close> is its own reading of the clock, \<open>nowLoader\<close> the
  later one of \<^verbatim>\<open>genericLoader\<close>. The error of the loader is logged and dropped.
\<close>

definition fillFromFile :: "'fs world \<Rightarrow> 'fs \<Rightarrow> int \<Rightarrow> int \<Rightarrow> int \<Rightarrow> queryLog \<Rightarrow> queryLog" where
  "fillFromFile w fs queryLogSize now nowLoader l =
     (case genericLoader w fs l (fillOnEntry w queryLogSize now) (\<lambda>_. True)
             (confInterval l) nowLoader (queryLogCache l) of
        (err, cache) \<Rightarrow> l\<lparr>queryLogCache := cache\<rparr>)"

subsection \<open>Backfilling the statistics\<close>

text \<open>
  \<^verbatim>\<open>fillStatsFromQueryLog(s)\<close>. The reader of the query log is not in the sources: it
  is given by the entries its successive \<^verbatim>\<open>Next()\<close> calls return, or \<open>None\<close> when
  \<^verbatim>\<open>OpenReader\<close> returns nil. \<^verbatim>\<open>stats.incrementCounters\<close> is a parameter on a state
  \<open>'st\<close>, and \<^verbatim>\<open>l.timeLimit\<close> a number of hours.
\<close>

fun fillStatsLoop ::
  "'fs world \<Rightarrow> (logEntry \<Rightarrow> 'st \<Rightarrow> 'st) \<Rightarrow> int \<Rightarrow> int \<Rightarrow> logEntry list \<Rightarrow> dayTop \<Rightarrow> 'st \<Rightarrow>
   (dayTop \<times> 'st) outcome" where
  "fillStatsLoop w incrementCounters now validFrom [] d s = Returns (d, s)"
| "fillStatsLoop w incrementCounters now validFrom (entry # rest) d s =
     (if time_Unix (Time entry) < validFrom
      then fillStatsLoop w incrementCounters now validFrom rest d s
      else if length (Question entry) = 0
      then fillStatsLoop w incrementCounters now validFrom rest d s
      else if time_After (Time entry) now
      then fillStatsLoop w incrementCounters now validFrom rest d s
      else
        (case dnsUnpack w (Question entry) of
           Inl err \<Rightarrow> fillStatsLoop w incrementCounters now validFrom rest d s
         | Inr q \<Rightarrow>
             if length (MsgQuestion q) \<noteq> 1
             then fillStatsLoop w incrementCounters now validFrom rest d s
             else
               (case addEntry entry q now d of
                  Panics \<Rightarrow> Panics
                | Returns (Some err, d1) \<Rightarrow>
                    fillStatsLoop w incrementCounters now validFrom rest d1 s
                | Returns (None, d1) \<Rightarrow>
                    fillStatsLoop w incrementCounters now validFrom rest d1
                      (incrementCounters entry s))))"

definition fillStatsFromQueryLog ::
  "'fs world \<Rightarrow> (logEntry \<Rightarrow> 'st \<Rightarrow> 'st) \<Rightarrow> int \<Rightarrow> int \<Rightarrow> logEntry list option \<Rightarrow> dayTop \<Rightarrow> 'st \<Rightarrow>
   (dayTop \<times> 'st) outcome" where
  "fillStatsFromQueryLog w incrementCounters now timeLimit reader d s =
     (let validFrom = int64_wrap (time_Unix now - int64_wrap (timeLimit * 60 * 60)) in
      case reader of
        None \<Rightarrow> Returns (d, s)
      | Some entries \<Rightarrow> fillStatsLoop w incrementCounters now validFrom entries d s)"

subsection \<open>The configuration handler\<close>

text \<open>
  \<^verbatim>\<open>handleQueryLogConfig\<close>. The request is the body of the HTTP request; decoding it
  with \<^verbatim>\<open>encoding/json\<close> is the parameter \<open>decodeBody\<close>. The helper
  \<^verbatim>\<open>checkStatsInterval\<close> is not in the sources and is a parameter too, as is
  \<^verbatim>\<open>Configure\<close> of the query log, on a state \<open>'ql\<close>. \<^verbatim>\<open>httpError(w, code, text)\<close>
  answers with the status code and the text, \<^verbatim>\<open>returnOK(w)\<close> with success.
\<close>

record qlogConfig =
  Enabled :: bool
  Interval :: "32 word"

record 'ql config =
  QueryLogEnabled :: bool
  QueryLogInterval :: "32 word"
  queryLogHandle :: 'ql

datatype response = HttpError nat string | ReturnOK

definition StatusBadRequest :: nat where
  "StatusBadRequest = 400"

definition handleQueryLogConfig ::
  "(string \<Rightarrow> error + qlogConfig) \<Rightarrow> (nat \<Rightarrow> bool) \<Rightarrow> (int \<Rightarrow> 'ql \<Rightarrow> 'ql) \<Rightarrow>
   string \<Rightarrow> 'ql config \<Rightarrow> response \<times> 'ql config" where
  "handleQueryLogConfig decodeBody checkStatsInterval Configure body cfg =
     (case decodeBody body of
        Inl err \<Rightarrow> (HttpError StatusBadRequest ''json decode'', cfg)
      | Inr reqData \<Rightarrow>
          if \<not> checkStatsInterval (unat (Interval reqData))
          then (HttpError StatusBadRequest ''Unsupported interval'', cfg)
          else
            let cfg1 = cfg\<lparr>QueryLogEnabled := Enabled reqData,
                           QueryLogInterval := Interval reqData\<rparr>;
                conf = int64_wrap (int64_wrap (uint (QueryLogInterval cfg1) * 24) * Hour)
            in (ReturnOK, cfg1\<lparr>queryLogHandle := Configure conf (queryLogHandle cfg1)\<rparr>))"

subsection \<open>Observations and invariants\<close>

text \<open>
  \<open>observed c k\<close> is the count \<^verbatim>\<open>lockedGetValue\<close> reports for the key, the only way
  the program reads a counter. \<open>countOf\<close> is the same number read off the eviction
  list without touching it. \<open>intsOnly\<close> says that every value of a cache has dynamic
  type \<^verbatim>\<open>int\<close>, which is what \<^verbatim>\<open>incrementValue\<close> stores; \<open>intBucket\<close> says it of the
  three caches of a bucket.
\<close>

definition observed :: "cache \<Rightarrow> string \<Rightarrow> int" where
  "observed c k = fst (fst (lockedGetValue k c))"

definition countOf :: "cache \<Rightarrow> string \<Rightarrow> int" where
  "countOf c k = (case map_of (citems c) k of Some (VInt n) \<Rightarrow> n | _ \<Rightarrow> 0)"

definition intsOnly :: "cache \<Rightarrow> bool" where
  "intsOnly c = list_all (\<lambda>p. snd p \<noteq> VOther) (citems c)"

definition intBucket :: "hourTop \<Rightarrow> bool" where
  "intBucket h = (intsOnly (domains h) \<and> intsOnly (blocked h) \<and> intsOnly (clients h))"

subsection \<open>Sample data\<close>

text \<open>
  Concrete values on which the theorems below are instantiated: a filtered request
  for \<open>Example.COM.\<close> from the client \<open>10.0.0.1\<close> at instant 0, and an aggregator
  of two empty buckets whose caches hold three keys each.
\<close>

definition sampleEntry :: logEntry where
  "sampleEntry = \<lparr>Question = ''Example.COM.'', Answer = [], IsFiltered = True,
                   Time = 0, Elapsed = 0, IP = ''10.0.0.1''\<rparr>"

definition sampleMsg :: dnsMsg where
  "sampleMsg = \<lparr>MsgQuestion = [\<lparr>Name = ''Example.COM.''\<rparr>]\<rparr>"

definition sampleDay :: dayTop where
  "sampleDay = \<lparr>limit = 2, hours = [hourTop_init 3, hourTop_init 3]\<rparr>"

text \<open>
  \<open>sameDomainState name j d\<close>: the aggregator has a first bucket whose domain cache
  holds exactly the count \<open>j\<close> for \<open>name\<close> (nothing when \<open>j = 0\<close>) and whose other
  caches hold integers; \<open>currentHourFor name (entry, q, now)\<close>: the call
  \<^verbatim>\<open>addEntry(entry, q, now)\<close> is for the current hour and for the host \<open>name\<close>.
\<close>

definition sameDomainState :: "string \<Rightarrow> int \<Rightarrow> dayTop \<Rightarrow> bool" where
  "sameDomainState name j d =
     (0 < limit d \<and>
      (case hours d of
         [] \<Rightarrow> False
       | b # rest \<Rightarrow>
           citems (domains b) = (if j = 0 then [] else [(name, VInt j)]) \<and>
           intsOnly (blocked b) \<and> intsOnly (clients b)))"

definition currentHourFor :: "string \<Rightarrow> logEntry \<times> dnsMsg \<times> int \<Rightarrow> bool" where
  "currentHourFor name x =
     (case x of (entry, q, now) \<Rightarrow>
        hoursOf (time_Sub now (Time entry)) = 0 \<and> MsgQuestion q \<noteq> [] \<and> hostnameOf q = name)"

text \<open>
  \<open>roomFor keys c\<close>: the cache can take one increment for each of \<open>keys\<close> with no
  eviction and no overflow. Its keys are distinct, its values are integers of the
  64-bit range that stay in it after \<open>length keys\<close> increments, and its keys
  together with \<open>keys\<close> are at most \<open>csize c\<close> different strings.
\<close>

definition roomFor :: "string list \<Rightarrow> cache \<Rightarrow> bool" where
  "roomFor keys c =
     (distinct (cache_Keys c) \<and>
      list_all (\<lambda>p. case snd p of
                      VInt n \<Rightarrow> minInt64 \<le> n \<and> n + int (length keys) \<le> maxInt64
                    | VOther \<Rightarrow> False) (citems c) \<and>
      int (length keys) \<le> maxInt64 \<and>
      int (length (remdups (cache_Keys c @ keys))) \<le> csize c)"

subsection \<open>A sample world\<close>

text \<open>
  A small concrete world, for the instances below. The disk is a list of named files
  and may be full, in which case every write fails. The sample codec writes one byte
  per entry and knows two entries only: \<open>sampleEntry\<close> (byte \<open>g\<close>) and
  \<open>brokenEntry\<close> (byte \<open>b\<close>), an entry whose question bytes the sample DNS parser
  rejects; any other byte fails to decode.
\<close>

record disk =
  diskFiles :: "(string \<times> string) list"
  diskFull :: bool

definition brokenEntry :: logEntry where
  "brokenEntry = sampleEntry\<lparr>Question := ''??'', IsFiltered := False\<rparr>"

definition sampleEncode :: "logEntry \<Rightarrow> error + string" where
  "sampleEncode entry =
     (if entry = sampleEntry then Inr ''g''
      else if entry = brokenEntry then Inr ''b''
      else Inl (ExtError ''unsupported value''))"

definition sampleDecodeByte :: "char \<Rightarrow> error + logEntry" where
  "sampleDecodeByte ch =
     (if ch = CHR ''g'' then Inr sampleEntry
      else if ch = CHR ''b'' then Inr brokenEntry
      else Inl (ExtError ''invalid character''))"

definition sampleUnpack :: "string \<Rightarrow> error + dnsMsg" where
  "sampleUnpack bytes =
     (if bytes = ''Example.COM.'' then Inr sampleMsg else Inl (ExtError ''unpack''))"

definition appendFile :: "string \<Rightarrow> string \<Rightarrow> (string \<times> string) list \<Rightarrow> (string \<times> string) list" where
  "appendFile name bytes files =
     (case map_of files name of
        None \<Rightarrow> files @ [(name, bytes)]
      | Some old \<Rightarrow> map (\<lambda>p. if fst p = name then (name, snd p @ bytes) else p) files)"

definition sampleWorld :: "disk world" where
  "sampleWorld =
     \<lparr>jsonEncode = sampleEncode,
      jsonDecoder = map sampleDecodeByte,
      dnsUnpack = sampleUnpack,
      osOpenFile = (\<lambda>name fs. (None, fs\<lparr>diskFiles := appendFile name [] (diskFiles fs)\<rparr>)),
      osWrite = (\<lambda>name bytes fs.
         if diskFull fs then (Some (ExtError ''no space left on device''), fs)
         else (None, fs\<lparr>diskFiles := appendFile name bytes (diskFiles fs)\<rparr>)),
      osNotExist = (\<lambda>name fs. map_of (diskFiles fs) name = None),
      osOpen = (\<lambda>name fs. case map_of (diskFiles fs) name of
                              None \<Rightarrow> Inl (ExtError ''open'')
                            | Some bytes \<Rightarrow> Inr bytes)\<rparr>"

definition sampleLog :: queryLog where
  "sampleLog = \<lparr>logFile = ''querylog.json'', confInterval = 24 * Hour,
                 logBuffer = [sampleEntry], flushPending = True, queryLogCache = []\<rparr>"

definition fullDisk :: disk where
  "fullDisk = \<lparr>diskFiles = [], diskFull = True\<rparr>"

definition diskWith :: "string \<Rightarrow> disk" where
  "diskWith bytes = \<lparr>diskFiles = [(''querylog.json'', bytes)], diskFull = False\<rparr>"

definition futureEntry :: logEntry where
  "futureEntry = sampleEntry\<lparr>Time := Hour\<rparr>"

text \<open>
  A sample request (disable the log, keep two days), a decoder that knows its body,
  a sample \<^verbatim>\<open>checkStatsInterval\<close> with four supported values, and the configuration
  the request is sent to. \<^verbatim>\<open>Configure\<close> is taken to store the interval.
\<close>

definition sampleBody :: string where
  "sampleBody = ''enabled: false, interval: 2''"

definition sampleDecodeBody :: "string \<Rightarrow> error + qlogConfig" where
  "sampleDecodeBody body =
     (if body = sampleBody then Inr \<lparr>Enabled = False, Interval = 2\<rparr>
      else Inl (ExtError ''unexpected end of JSON input''))"

definition sampleCheckStatsInterval :: "nat \<Rightarrow> bool" where
  "sampleCheckStatsInterval i = (i = 1 \<or> i = 7 \<or> i = 30 \<or> i = 90)"

definition sampleConfig :: "int config" where
  "sampleConfig = \<lparr>QueryLogEnabled = True, QueryLogInterval = 7, queryLogHandle = 7 * 24 * Hour\<rparr>"

subsection \<open>Files without the entries of the future\<close>

text \<open>
  \<open>withoutFuture now w\<close> is the world \<open>w\<close> in which every file reads as if the
  records whose entry has a time after \<open>now\<close> were not in it.
\<close>

definition notFuture :: "int \<Rightarrow> error + logEntry \<Rightarrow> bool" where
  "notFuture now r = (case r of Inl err \<Rightarrow> True | Inr entry \<Rightarrow> \<not> time_After (Time entry) now)"

definition withoutFuture :: "int \<Rightarrow> 'fs world \<Rightarrow> 'fs world" where
  "withoutFuture now w =
     w\<lparr>jsonDecoder := (\<lambda>bytes. filter (notFuture now) (jsonDecoder w bytes))\<rparr>"

subsection \<open>A sample aggregator of three hours\<close>

text \<open>
  \<open>bucketOf name\<close> is a bucket that has counted one request for \<open>name\<close>;
  \<open>sampleDay3\<close> has a limit of three hours and one such bucket per hour, the newest
  first.
\<close>

definition bucketOf :: "string \<Rightarrow> hourTop" where
  "bucketOf name = (hourTop_init 3)\<lparr>domains := snd (incrementValue name (gcache_New 3))\<rparr>"

definition sampleDay3 :: dayTop where
  "sampleDay3 = \<lparr>limit = 3, hours = [bucketOf ''new'', bucketOf ''mid'', bucketOf ''old'']\<rparr>"

subsection \<open>The entry codec of the specification\<close>

text \<open>
  Modelled from the spec: the entry codec. In the repository it is \<^verbatim>\<open>encoding/json\<close>
  applied to \<^verbatim>\<open>logEntry\<close>, whose declaration (with its field tags) is not in the
  sources. The specification asks for \<open>encode(entry) -> bytes\<close> and
  \<open>decode(bytes) -> entry | DecodeError\<close>, a self-describing text record, one per
  line, self-delimiting ("one record per line or length-prefixed"), with numeric
  and duration fields in "a fixed, unambiguous representation", and a decoder that
  "can resynchronize after a corrupt record by skipping to the next delimiter".
  The codec below writes one line per entry, each field under its name: numbers in
  decimal, byte strings as their length, a colon and the bytes.
\<close>

definition isDigit :: "char \<Rightarrow> bool" where
  "isDigit c = (c \<in> set ''0123456789'')"

definition digitChar :: "nat \<Rightarrow> char" where
  "digitChar d = ''0123456789'' ! d"

definition digitVal :: "char \<Rightarrow> nat" where
  "digitVal c =
     (case map_of (zip ''0123456789'' [0, 1, 2, 3, 4, 5, 6, 7, 8, 9]) c of
        Some d \<Rightarrow> d
      | None \<Rightarrow> 0)"

fun digits :: "nat \<Rightarrow> string" where
  "digits n = (if n < 10 then [digitChar n] else digits (n div 10) @ [digitChar (n mod 10)])"

definition natOfDigits :: "string \<Rightarrow> nat" where
  "natOfDigits ds = foldl (\<lambda>a c. a * 10 + digitVal c) 0 ds"

definition parseNat :: "string \<Rightarrow> (nat \<times> string) option" where
  "parseNat inp =
     (let ds = takeWhile isDigit inp in
      if ds = [] then None else Some (natOfDigits ds, dropWhile isDigit inp))"

definition encInt :: "int \<Rightarrow> string" where
  "encInt i = (if i < 0 then ''-'' else []) @ digits (nat \<bar>i\<bar>)"

definition parseInt :: "string \<Rightarrow> (int \<times> string) option" where
  "parseInt inp =
     (case inp of
        [] \<Rightarrow> None
      | c # r \<Rightarrow>
          if c = CHR ''-''
          then (case parseNat r of None \<Rightarrow> None | Some (n, r') \<Rightarrow> Some (- int n, r'))
          else (case parseNat inp of None \<Rightarrow> None | Some (n, r') \<Rightarrow> Some (int n, r')))"

definition encBytes :: "string \<Rightarrow> string" where
  "encBytes s = digits (length s) @ '':'' @ s"

definition expect :: "string \<Rightarrow> string \<Rightarrow> string option" where
  "expect lit inp =
     (if take (length lit) inp = lit then Some (drop (length lit) inp) else None)"

definition parseBytes :: "string \<Rightarrow> (string \<times> string) option" where
  "parseBytes inp =
     (case parseNat inp of
        None \<Rightarrow> None
      | Some (n, r) \<Rightarrow>
          (case expect '':'' r of
             None \<Rightarrow> None
           | Some r' \<Rightarrow> if length r' < n then None else Some (take n r', drop n r')))"

definition encBool :: "bool \<Rightarrow> string" where
  "encBool b = (if b then ''t'' else ''f'')"

definition parseBool :: "string \<Rightarrow> (bool \<times> string) option" where
  "parseBool inp =
     (case inp of
        [] \<Rightarrow> None
      | c # r \<Rightarrow>
          if c = CHR ''t'' then Some (True, r)
          else if c = CHR ''f'' then Some (False, r)
          else None)"

definition newline :: char where
  "newline = CHR 0x0A"

definition encodeEntry :: "logEntry \<Rightarrow> string" where
  "encodeEntry e =
     ''question='' @ encBytes (Question e) @
     '' answer='' @ encBytes (Answer e) @
     '' filtered='' @ encBool (IsFiltered e) @
     '' time='' @ encInt (Time e) @
     '' elapsed='' @ encInt (Elapsed e) @
     '' ip='' @ encBytes (IP e) @ [newline]"

definition decodeEntry :: "string \<Rightarrow> (logEntry \<times> string) option" where
  "decodeEntry inp =
     Option.bind (expect ''question='' inp) (\<lambda>r0.
     Option.bind (parseBytes r0) (\<lambda>(q, r1).
     Option.bind (expect '' answer='' r1) (\<lambda>r2.
     Option.bind (parseBytes r2) (\<lambda>(a, r3).
     Option.bind (expect '' filtered='' r3) (\<lambda>r4.
     Option.bind (parseBool r4) (\<lambda>(f, r5).
     Option.bind (expect '' time='' r5) (\<lambda>r6.
     Option.bind (parseInt r6) (\<lambda>(t, r7).
     Option.bind (expect '' elapsed='' r7) (\<lambda>r8.
     Option.bind (parseInt r8) (\<lambda>(d, r9).
     Option.bind (expect '' ip='' r9) (\<lambda>r10.
     Option.bind (parseBytes r10) (\<lambda>(i, r11).
     Option.bind (expect [newline] r11) (\<lambda>r12.
       Some (\<lparr>Question = q, Answer = a, IsFiltered = f, Time = t, Elapsed = d, IP = i\<rparr>,
             r12))))))))))))))"

text \<open>
  Modelled from the spec: the decoder of a stream of records. A record that does not
  decode gives an error, and the decoder goes on after the next end of line. Every
  step consumes at least one byte, so the length of the input is fuel enough.
\<close>

fun decodeRecords :: "nat \<Rightarrow> string \<Rightarrow> (error + logEntry) list" where
  "decodeRecords 0 inp = []"
| "decodeRecords (Suc n) inp =
     (if inp = [] then []
      else
        (case decodeEntry inp of
           Some (e, rest) \<Rightarrow> Inr e # decodeRecords n rest
         | None \<Rightarrow>
             Inl (ExtError ''malformed record'') #
             decodeRecords n (drop 1 (dropWhile (\<lambda>c. c \<noteq> newline) inp))))"

definition specEncode :: "logEntry \<Rightarrow> error + string" where
  "specEncode e = Inr (encodeEntry e)"

definition specDecoder :: "string \<Rightarrow> (error + logEntry) list" where
  "specDecoder inp = decodeRecords (length inp) inp"

text \<open>The world \<open>w\<close> with the codec of the specification in place of its own.\<close>

definition withSpecCodec :: "'fs world \<Rightarrow> 'fs world" where
  "withSpecCodec w = w\<lparr>jsonEncode := specEncode, jsonDecoder := specDecoder\<rparr>"

text \<open>
  \<open>survives key keys c\<close>: along the run of \<open>incrementValue\<close> calls for \<open>keys\<close> from the
  cache \<open>c\<close>, no call evicts \<open>key\<close> (a call that finds it cached leaves it cached)
  and no call overflows its count (a call that increments it finds it below the
  largest \<^verbatim>\<open>int\<close>). Calls that evict other keys are allowed. The run ends at the
  first call that returns an error, as \<open>incrementValues\<close> does.
\<close>

fun survives :: "string \<Rightarrow> string list \<Rightarrow> cache \<Rightarrow> bool" where
  "survives key [] c = True"
| "survives key (k # ks) c =
     (case incrementValue k c of
        (e, c1) \<Rightarrow>
          (key \<in> set (cache_Keys c) \<longrightarrow> key \<in> set (cache_Keys c1)) \<and>
          (k = key \<longrightarrow> countOf c key < maxInt64) \<and>
          (e = None \<longrightarrow> survives key ks c1))"

section \<open>Properties\<close>

subsection \<open>Entries older than the retention limit\<close>

text \<open>
  Claim C7. An entry whose age in whole hours, \<open>hoursOf (time_Sub now (Time entry))\<close>,
  is at least the retention limit makes \<open>addEntry\<close> return without an error and
  with the aggregator unchanged: no bucket, and no counter of any bucket, differs.
\<close>

theorem addEntry_too_old_unchanged:
  assumes "hoursOf (time_Sub now (Time entry)) \<ge> limit d"
  shows "addEntry entry q now d = Returns (None, d)"
  using assms by (simp add: addEntry_def Let_def)

subsection \<open>Facts about the sample data\<close>

lemma sample_hostname: "hostnameOf sampleMsg = ''example.com''"
  by (simp add: hostnameOf_def sampleMsg_def ToLower_def TrimSuffix_def lowerChar_def)

lemma sample_question: "MsgQuestion sampleMsg \<noteq> []"
  by (simp add: sampleMsg_def)

lemma sample_hour: "hoursOf (time_Sub 0 (Time sampleEntry)) = 0"
  by (simp add: hoursOf_def time_Sub_def go_quot_def sampleEntry_def maxInt64_def minInt64_def)

lemma sample_old_hour: "hoursOf (time_Sub (5 * Hour) (Time sampleEntry)) = 5"
  by (simp add: hoursOf_def time_Sub_def go_quot_def sampleEntry_def maxInt64_def minInt64_def
        Hour_def)

lemma sample_bucket: "intBucket (hours sampleDay ! 0)"
  by (simp add: intBucket_def sampleDay_def hourTop_init_def intsOnly_def gcache_New_def)

lemma sample_observed:
  "observed (domains (hours sampleDay ! 0)) k = 0"
  "observed (blocked (hours sampleDay ! 0)) k = 0"
  "observed (clients (hours sampleDay ! 0)) k = 0"
  by (simp_all add: observed_def lockedGetValue_def cache_Get_def sampleDay_def hourTop_init_def
        gcache_New_def)

theorem addEntry_too_old_unchanged_witness:
  "limit sampleDay \<le> hoursOf (time_Sub (5 * Hour) (Time sampleEntry)) \<and>
   addEntry sampleEntry sampleMsg (5 * Hour) sampleDay = Returns (None, sampleDay)"
proof -
  have old: "limit sampleDay \<le> hoursOf (time_Sub (5 * Hour) (Time sampleEntry))"
    by (simp add: sample_old_hour sampleDay_def)
  show ?thesis
    using old addEntry_too_old_unchanged [OF old, of sampleMsg] by simp
qed

subsection \<open>Counters of a cache\<close>

lemma int64_wrap_id: "minInt64 \<le> x \<Longrightarrow> x \<le> maxInt64 \<Longrightarrow> int64_wrap x = x"
  by (simp add: int64_wrap_def minInt64_def maxInt64_def)

lemma map_of_removeKey_at:
  "map_of (removeKey k xs) k' = (if k' = k then None else map_of xs k')"
  by (induction xs) (auto simp: removeKey_def)

lemma map_of_removeKey: "map_of ((k, v) # removeKey k xs) = (map_of xs)(k \<mapsto> v)"
  by (rule ext) (simp add: map_of_removeKey_at)

lemma intsOnly_map_of: "intsOnly c \<Longrightarrow> map_of (citems c) k \<noteq> Some VOther"
  unfolding intsOnly_def list_all_iff by (fastforce dest: map_of_SomeD)

lemma observed_countOf: "observed c k = countOf c k"
  by (auto simp: observed_def countOf_def lockedGetValue_def cache_Get_def
      split: option.splits cval.splits)

lemma lockedGetValue_ints: "intsOnly c \<Longrightarrow> snd (fst (lockedGetValue k c)) = None"
  using intsOnly_map_of[of c k]
  by (auto simp: lockedGetValue_def cache_Get_def split: option.splits cval.splits)

lemma intsOnly_removeKey:
  "list_all (\<lambda>p. snd p \<noteq> VOther) xs \<Longrightarrow> list_all (\<lambda>p. snd p \<noteq> VOther) (removeKey k xs)"
  by (simp add: removeKey_def list_all_iff)

lemma list_all_butlast: "list_all P xs \<Longrightarrow> list_all P (butlast xs)"
  by (auto simp: list_all_iff dest: in_set_butlastD)

lemma incrementValue_ints:
  assumes "intsOnly c"
  shows "fst (incrementValue k c) = None \<and> intsOnly (snd (incrementValue k c))"
  using assms intsOnly_map_of[OF assms, of k]
  by (auto simp: incrementValue_def cache_Get_def cache_Set_def intsOnly_def
        intsOnly_removeKey list_all_butlast
      split: option.splits cval.splits)

lemma incrementValue_split:
  assumes "intsOnly c"
  shows "incrementValue k c = (None, snd (incrementValue k c))"
  using incrementValue_ints[OF assms, of k] by (cases "incrementValue k c") simp

lemma incrementValue_count:
  assumes "intsOnly c"
  shows "countOf (snd (incrementValue k c)) k = int64_wrap (countOf c k + 1)"
  using assms intsOnly_map_of[OF assms, of k]
  apply (auto simp: incrementValue_def cache_Get_def cache_Set_def countOf_def map_of_removeKey
      split: option.splits cval.splits)
  apply (simp add: int64_wrap_def)
  done

subsection \<open>Recording one entry\<close>

text \<open>
  On an aggregator with one bucket per hour of its limit: take an entry whose hour
  index \<open>hour\<close> lies in the retention window (\<open>0 \<le> hour < limit\<close>) and whose
  message has a question with a non-empty name after trimming one trailing dot and
  lowercasing; let the caches of bucket \<open>hour\<close> hold integer counts. Then
  \<open>addEntry\<close> returns without an error and changes bucket \<open>hour\<close> only. In the new
  bucket the domain count observed for the name is the old one plus one (as a Go
  \<^verbatim>\<open>int\<close>). If the entry is filtered, the blocked count for the name is the old one
  plus one; if it is not, the blocked cache is the old blocked cache. If the client
  identifier is non-empty, the client count for it is the old one plus one; otherwise
  the client cache is the old one.
\<close>

lemma addEntry_counts:
  assumes hour: "hour = hoursOf (time_Sub now (Time entry))"
    and b: "b = hours d ! nat hour"
    and name: "name = ToLower (TrimSuffix (Name (MsgQuestion q ! 0)) ''.'')"
    and window: "0 \<le> hour" "hour < limit d"
    and len: "limit d = int (length (hours d))"
    and q: "MsgQuestion q \<noteq> []" "name \<noteq> []"
    and ints: "intBucket b"
  shows "\<exists>b'. addEntry entry q now d = Returns (None, d\<lparr>hours := (hours d)[nat hour := b']\<rparr>)
     \<and> observed (domains b') name = int64_wrap (observed (domains b) name + 1)
     \<and> (if IsFiltered entry
          then observed (blocked b') name = int64_wrap (observed (blocked b) name + 1)
          else blocked b' = blocked b)
     \<and> (if IP entry \<noteq> []
          then observed (clients b') (IP entry) = int64_wrap (observed (clients b) (IP entry) + 1)
          else clients b' = clients b)"
proof -
  define cd where "cd = snd (incrementValue name (domains b))"
  define cb0 where "cb0 = snd (incrementValue name (blocked b))"
  define cc0 where "cc0 = snd (incrementValue (IP entry) (clients b))"
  define cb where "cb = (if IsFiltered entry then cb0 else blocked b)"
  define cc where "cc = (if IP entry \<noteq> [] then cc0 else clients b)"
  define b' where "b' = \<lparr>domains = cd, blocked = cb, clients = cc\<rparr>"
  have name': "hostnameOf q = name"
    by (simp add: hostnameOf_def name)
  have i1: "incrementValue name (domains b) = (None, cd)"
    using ints incrementValue_split[of "domains b" name] by (simp add: intBucket_def cd_def)
  have i2: "incrementValue name (blocked b) = (None, cb0)"
    using ints incrementValue_split[of "blocked b" name] by (simp add: intBucket_def cb0_def)
  have i3: "incrementValue (IP entry) (clients b) = (None, cc0)"
    using ints incrementValue_split[of "clients b" "IP entry"] by (simp add: intBucket_def cc0_def)
  have s1: "incrementDomains name b = (None, b\<lparr>domains := cd\<rparr>)"
    by (simp add: incrementDomains_def i1)
  have s2: "(if IsFiltered entry then incrementBlocked name (b\<lparr>domains := cd\<rparr>)
             else (None, b\<lparr>domains := cd\<rparr>)) = (None, b\<lparr>domains := cd, blocked := cb\<rparr>)"
    by (simp add: incrementBlocked_def i2 cb_def)
  have s3a: "IP entry \<noteq> [] \<Longrightarrow>
      incrementClients (IP entry) (b\<lparr>domains := cd, blocked := cb\<rparr>) = (None, b')"
    using i3 by (cases b) (simp add: incrementClients_def cc_def b'_def)
  have s3b: "IP entry = [] \<Longrightarrow> b\<lparr>domains := cd, blocked := cb\<rparr> = b'"
    by (cases b) (simp add: cc_def b'_def)
  have guard: "\<not> limit d \<le> hour" "\<not> (hour < 0 \<or> int (length (hours d)) \<le> hour)"
    using window len by simp_all
  have run: "addEntry entry q now d = Returns (None, d\<lparr>hours := (hours d)[nat hour := b']\<rparr>)"
    unfolding addEntry_def Let_def hour[symmetric] name' b[symmetric]
    using guard q by (simp add: s1 s2 s3a s3b putHour_def)
  have d: "observed (domains b') name = int64_wrap (observed (domains b) name + 1)"
    using ints by (simp add: b'_def cd_def observed_countOf incrementValue_count intBucket_def)
  have bl: "IsFiltered entry \<Longrightarrow>
      observed (blocked b') name = int64_wrap (observed (blocked b) name + 1)"
    using ints
    by (simp add: b'_def cb_def cb0_def observed_countOf incrementValue_count intBucket_def)
  have cl: "IP entry \<noteq> [] \<Longrightarrow>
      observed (clients b') (IP entry) = int64_wrap (observed (clients b) (IP entry) + 1)"
    using ints
    by (simp add: b'_def cc_def cc0_def observed_countOf incrementValue_count intBucket_def)
  have ub: "\<not> IsFiltered entry \<Longrightarrow> blocked b' = blocked b"
    by (simp add: b'_def cb_def)
  have uc: "IP entry = [] \<Longrightarrow> clients b' = clients b"
    by (simp add: b'_def cc_def)
  show ?thesis
    using run d bl cl ub uc by (intro exI[of _ b']) simp
qed

lemma addEntry_counts_sample:
  "0 \<le> hoursOf (time_Sub 0 (Time sampleEntry)) \<and>
   hoursOf (time_Sub 0 (Time sampleEntry)) < limit sampleDay \<and>
   limit sampleDay = int (length (hours sampleDay)) \<and>
   MsgQuestion sampleMsg \<noteq> [] \<and>
   ToLower (TrimSuffix (Name (MsgQuestion sampleMsg ! 0)) ''.'') = ''example.com'' \<and>
   intBucket (hours sampleDay ! 0) \<and>
   IsFiltered sampleEntry \<and> IP sampleEntry = ''10.0.0.1'' \<and>
   (\<exists>b'. addEntry sampleEntry sampleMsg 0 sampleDay =
            Returns (None, sampleDay\<lparr>hours := (hours sampleDay)[0 := b']\<rparr>) \<and>
         observed (domains b') ''example.com'' = 1 \<and>
         observed (blocked b') ''example.com'' = 1 \<and>
         observed (clients b') ''10.0.0.1'' = 1)"
proof -
  have nm: "''example.com'' = ToLower (TrimSuffix (Name (MsgQuestion sampleMsg ! 0)) ''.'')"
    using sample_hostname by (simp add: hostnameOf_def)
  have hr: "(0::int) = hoursOf (time_Sub 0 (Time sampleEntry))"
    by (simp add: sample_hour)
  have bk: "hours sampleDay ! 0 = hours sampleDay ! nat 0"
    by simp
  have w: "(0::int) \<le> 0" "0 < limit sampleDay" "limit sampleDay = int (length (hours sampleDay))"
    by (simp_all add: sampleDay_def)
  have q: "MsgQuestion sampleMsg \<noteq> []" "''example.com'' \<noteq> []"
    by (simp_all add: sampleMsg_def)
  have e: "IsFiltered sampleEntry" "IP sampleEntry = ''10.0.0.1''"
    by (simp_all add: sampleEntry_def)
  have one: "int64_wrap (0 + 1) = 1"
    by (simp add: int64_wrap_def)
  from addEntry_counts [OF hr bk nm w q sample_bucket]
  obtain b' where
    "addEntry sampleEntry sampleMsg 0 sampleDay =
       Returns (None, sampleDay\<lparr>hours := (hours sampleDay)[0 := b']\<rparr>)"
    "observed (domains b') ''example.com'' = 1"
    "observed (blocked b') ''example.com'' = 1"
    "observed (clients b') ''10.0.0.1'' = 1"
    using e one by (auto simp: sample_observed)
  then show ?thesis
    using nm hr w q e sample_bucket by auto
qed

subsection \<open>The same domain, many times, in the current hour\<close>

lemma incrementValue_single:
  assumes "citems c = (if j = 0 then [] else [(name, VInt j)])" "0 \<le> j" "j < maxInt64"
  shows "incrementValue name c = (None, c\<lparr>citems := [(name, VInt (j + 1))]\<rparr>)"
proof (cases "j = 0")
  case True
  then show ?thesis using assms
    by (simp add: incrementValue_def cache_Get_def cache_Set_def)
next
  case False
  have "int64_wrap (j + 1) = j + 1"
    using assms by (intro int64_wrap_id) (simp_all add: minInt64_def maxInt64_def)
  then show ?thesis using False assms
    by (simp add: incrementValue_def cache_Get_def cache_Set_def removeKey_def)
qed

lemma addEntry_same_domain_step:
  assumes st: "sameDomainState name j d" and j: "0 \<le> j" "j < maxInt64"
    and x: "currentHourFor name (entry, q, now)" and name: "name \<noteq> []"
  shows "\<exists>d'. addEntry entry q now d = Returns (None, d') \<and> sameDomainState name (j + 1) d'"
proof -
  from st obtain b rest where hs: "hours d = b # rest"
    and dom: "citems (domains b) = (if j = 0 then [] else [(name, VInt j)])"
    and ints: "intsOnly (blocked b)" "intsOnly (clients b)" and lim: "0 < limit d"
    by (auto simp: sameDomainState_def split: list.splits)
  have hour: "hoursOf (time_Sub now (Time entry)) = 0" and q: "MsgQuestion q \<noteq> []"
    and hn: "hostnameOf q = name"
    using x by (simp_all add: currentHourFor_def)
  define cb0 where "cb0 = snd (incrementValue name (blocked b))"
  define cc0 where "cc0 = snd (incrementValue (IP entry) (clients b))"
  define cb where "cb = (if IsFiltered entry then cb0 else blocked b)"
  define cc where "cc = (if IP entry \<noteq> [] then cc0 else clients b)"
  have i2: "incrementValue name (blocked b) = (None, cb0)"
    using incrementValue_split[OF ints(1), of name] by (simp add: cb0_def)
  have i3: "incrementValue (IP entry) (clients b) = (None, cc0)"
    using incrementValue_split[OF ints(2), of "IP entry"] by (simp add: cc0_def)
  define cd where "cd = (domains b)\<lparr>citems := [(name, VInt (j + 1))]\<rparr>"
  define b' where "b' = \<lparr>domains = cd, blocked = cb, clients = cc\<rparr>"
  have s1: "incrementDomains name b = (None, b\<lparr>domains := cd\<rparr>)"
    by (simp add: incrementDomains_def incrementValue_single[OF dom j] cd_def)
  have s2: "(if IsFiltered entry then incrementBlocked name (b\<lparr>domains := cd\<rparr>)
             else (None, b\<lparr>domains := cd\<rparr>)) = (None, b\<lparr>domains := cd, blocked := cb\<rparr>)"
    by (simp add: incrementBlocked_def i2 cb_def)
  have s3a: "IP entry \<noteq> [] \<Longrightarrow>
      incrementClients (IP entry) (b\<lparr>domains := cd, blocked := cb\<rparr>) = (None, b')"
    using i3 by (cases b) (simp add: incrementClients_def cc_def b'_def)
  have s3b: "IP entry = [] \<Longrightarrow> b\<lparr>domains := cd, blocked := cb\<rparr> = b'"
    by (cases b) (simp add: cc_def b'_def)
  have guard: "\<not> limit d \<le> 0" "\<not> ((0::int) < 0 \<or> int (length (hours d)) \<le> 0)"
    using lim hs by simp_all
  have run: "addEntry entry q now d = Returns (None, d\<lparr>hours := b' # rest\<rparr>)"
    unfolding addEntry_def Let_def hour hn
    using guard q name hs by (simp add: s1 s2 s3a s3b putHour_def)
  have cbi: "intsOnly cb"
    using ints(1) incrementValue_ints[OF ints(1), of name] by (simp add: cb_def cb0_def)
  have cci: "intsOnly cc"
    using ints(2) incrementValue_ints[OF ints(2), of "IP entry"] by (simp add: cc_def cc0_def)
  have "sameDomainState name (j + 1) (d\<lparr>hours := b' # rest\<rparr>)"
    using lim j cbi cci by (simp add: sameDomainState_def b'_def cd_def)
  with run show ?thesis by blast
qed

lemma addEntries_same_domain:
  assumes "sameDomainState name j d" "0 \<le> j" "j + int (length es) \<le> maxInt64"
    and "list_all (currentHourFor name) es" "name \<noteq> []"
  shows "\<exists>d'. addEntries es d = Returns (None, d') \<and> sameDomainState name (j + int (length es)) d'"
  using assms
proof (induction es arbitrary: j d)
  case Nil
  then show ?case by simp
next
  case (Cons x es)
  obtain entry q now where x: "x = (entry, q, now)" by (cases x) auto
  have jm: "j < maxInt64" using Cons.prems(3) by simp
  from Cons.prems x have cur: "currentHourFor name (entry, q, now)" by simp
  from addEntry_same_domain_step[OF Cons.prems(1,2) jm cur Cons.prems(5)]
  obtain d1 where d1: "addEntry entry q now d = Returns (None, d1)"
    and st1: "sameDomainState name (j + 1) d1" by blast
  have "\<exists>d'. addEntries es d1 = Returns (None, d') \<and>
      sameDomainState name (j + 1 + int (length es)) d'"
    using Cons.prems by (intro Cons.IH[OF st1]) simp_all
  moreover have "j + 1 + int (length es) = j + int (length (x # es))"
    by simp
  ultimately show ?case
    using d1 x by simp
qed

lemma getStatsTop_same_domain:
  assumes "sameDomainState name n d" "0 \<le> n" "n \<le> maxInt64"
  shows "mapRead (Domains (fst (getStatsTop 1 d))) name = n"
proof -
  from assms(1) obtain b rest where hs: "hours d = b # rest"
    and dom: "citems (domains b) = (if n = 0 then [] else [(name, VInt n)])"
    by (auto simp: sameDomainState_def split: list.splits)
  have w: "int64_wrap n = n"
    using assms by (intro int64_wrap_id) (simp_all add: minInt64_def)
  show ?thesis
  proof (cases "n = 0")
    case True
    then show ?thesis using hs dom
      by (simp add: getStatsTop_def statsHour_def cache_Keys_def mapRead_def
          split: prod.splits)
  next
    case False
    then show ?thesis using hs dom w
      by (simp add: getStatsTop_def statsHour_def cache_Keys_def mapRead_def
          lockedGetValue_def cache_Get_def split: prod.splits)
  qed
qed

lemma init_same_domain:
  assumes "0 < lim"
  shows "\<exists>d0. dayTop_init sz lim dayTop_zero = Returns d0 \<and> sameDomainState name 0 d0"
proof -
  obtain m where m: "nat lim = Suc m" using assms by (cases "nat lim") auto
  show ?thesis using assms m
    by (simp add: dayTop_init_def dayTop_zero_def sameDomainState_def hourTop_init_def
        gcache_New_def intsOnly_def)
qed

text \<open>
  Claim C5. Start from the empty aggregator that \<open>dayTop_init\<close> builds for a limit of
  at least one hour, with caches of capacity \<open>queryLogTopSize\<close> (positive, as the
  library requires, and a Go \<^verbatim>\<open>int\<close>). Record \<open>N\<close> entries, \<open>N \<le> queryLogTopSize\<close>,
  each for the current hour (hour index 0 at its own clock reading) and each with a
  question whose normalised name is \<open>name\<close>. Every call returns without an error, and
  \<open>getStatsTop 1\<close> then reports exactly \<open>N\<close> for \<open>name\<close> in its domain map.
\<close>

theorem same_domain_count:
  assumes "0 < queryLogTopSize" "queryLogTopSize \<le> maxInt64" "0 < lim"
    and "name \<noteq> []" "list_all (currentHourFor name) es"
    and "int (length es) \<le> queryLogTopSize"
  shows "\<exists>d0 d. dayTop_init queryLogTopSize lim dayTop_zero = Returns d0 \<and>
           addEntries es d0 = Returns (None, d) \<and>
           mapRead (Domains (fst (getStatsTop 1 d))) name = int (length es)"
proof -
  from init_same_domain[OF assms(3)] obtain d0 where
    d0: "dayTop_init queryLogTopSize lim dayTop_zero = Returns d0" "sameDomainState name 0 d0"
    by blast
  have bound: "0 + int (length es) \<le> maxInt64" using assms(2,6) by simp
  from addEntries_same_domain[OF d0(2) _ bound assms(5,4)] obtain d where
    d: "addEntries es d0 = Returns (None, d)" "sameDomainState name (int (length es)) d"
    by auto
  have "mapRead (Domains (fst (getStatsTop 1 d))) name = int (length es)"
    using getStatsTop_same_domain[OF d(2)] bound by simp
  with d0 d show ?thesis by blast
qed


theorem same_domain_count_witness:
  "(0::int) < 3 \<and> (3::int) \<le> maxInt64 \<and> (0::int) < 2 \<and> ''example.com'' \<noteq> [] \<and>
   list_all (currentHourFor ''example.com'')
     [(sampleEntry, sampleMsg, 0), (sampleEntry, sampleMsg, 0), (sampleEntry, sampleMsg, 0)] \<and>
   int (length [(sampleEntry, sampleMsg, 0::int), (sampleEntry, sampleMsg, 0),
                (sampleEntry, sampleMsg, 0)]) \<le> 3 \<and>
   (\<exists>d0 d. dayTop_init 3 2 dayTop_zero = Returns d0 \<and>
      addEntries [(sampleEntry, sampleMsg, 0), (sampleEntry, sampleMsg, 0),
                  (sampleEntry, sampleMsg, 0)] d0 = Returns (None, d) \<and>
      mapRead (Domains (fst (getStatsTop 1 d))) ''example.com'' = 3)"
proof -
  have size: "(0::int) < 3" "(3::int) \<le> maxInt64" "(0::int) < 2"
    by (simp_all add: maxInt64_def)
  have name: "''example.com'' \<noteq> []"
    by simp
  have cur: "list_all (currentHourFor ''example.com'')
     [(sampleEntry, sampleMsg, 0), (sampleEntry, sampleMsg, 0), (sampleEntry, sampleMsg, 0)]"
    by (simp add: currentHourFor_def sample_hour sample_hostname sample_question)
  have n: "int (length [(sampleEntry, sampleMsg, 0::int), (sampleEntry, sampleMsg, 0),
                (sampleEntry, sampleMsg, 0)]) \<le> 3"
    by simp
  show ?thesis
    using size name cur n same_domain_count [OF size name cur n] by simp
qed

subsection \<open>Counts within the lifetime of a bucket\<close>

lemma removeKey_keys: "map fst (removeKey k xs) = removeAll k (map fst xs)"
  by (induction xs) (auto simp: removeKey_def)

lemma removeKey_twice: "removeKey k ((k, v) # removeKey k xs) = removeKey k xs"
  by (simp add: removeKey_def)

lemma roomFor_step:
  assumes "roomFor (k # ks) c"
  shows "\<exists>c'. incrementValue k c = (None, c') \<and> roomFor ks c' \<and>
           (\<forall>k'. countOf c k' \<le> countOf c' k')"
proof -
  define xs where "xs = citems c"
  have dist: "distinct (map fst xs)"
    and vals: "list_all (\<lambda>p. case snd p of
                      VInt n \<Rightarrow> minInt64 \<le> n \<and> n + int (length (k # ks)) \<le> maxInt64
                    | VOther \<Rightarrow> False) xs"
    and len: "int (length (k # ks)) \<le> maxInt64"
    and room: "int (length (remdups (map fst xs @ k # ks))) \<le> csize c"
    using assms by (simp_all add: roomFor_def cache_Keys_def xs_def)
  have vals': "list_all (\<lambda>p. case snd p of
                      VInt n \<Rightarrow> minInt64 \<le> n \<and> n + int (length ks) \<le> maxInt64
                    | VOther \<Rightarrow> False) xs"
    using vals by (auto simp: list_all_iff split: cval.splits)
  show ?thesis
  proof (cases "map_of xs k")
    case None
    then have notin: "k \<notin> set (map fst xs)"
      by (simp add: map_of_eq_None_iff)
    have "length xs = card (set (map fst xs))"
      using dist by (metis distinct_card length_map)
    also have "\<dots> < card (insert k (set (map fst xs)))"
      using notin by simp
    also have "\<dots> \<le> card (set (map fst xs @ k # ks))"
      by (intro card_mono) auto
    also have "\<dots> = length (remdups (map fst xs @ k # ks))"
      by (rule length_remdups_card_conv[symmetric])
    finally have small: "\<not> csize c \<le> int (length xs)"
      using room by linarith
    define c' where "c' = c\<lparr>citems := (k, VInt 1) # xs\<rparr>"
    have run: "incrementValue k c = (None, c')"
      using None small
      by (simp add: incrementValue_def cache_Get_def cache_Set_def xs_def[symmetric] c'_def)
    have set_eq: "set (k # map fst xs @ ks) = set (map fst xs @ k # ks)"
      by auto
    have "length (remdups (k # map fst xs @ ks)) = length (remdups (map fst xs @ k # ks))"
      using set_eq by (simp only: length_remdups_card_conv)
    then have r: "roomFor ks c'"
      using dist notin vals' len room
      by (simp add: roomFor_def c'_def cache_Keys_def minInt64_def maxInt64_def del: remdups.simps)
    have m: "countOf c k' \<le> countOf c' k'" for k'
      using None by (simp add: countOf_def c'_def xs_def[symmetric])
    from run r m show ?thesis by blast
  next
    case (Some v)
    then have mem: "(k, v) \<in> set xs"
      by (rule map_of_SomeD)
    with vals obtain n where v: "v = VInt n" and n: "minInt64 \<le> n" "n + int (length (k # ks)) \<le> maxInt64"
      by (cases v) (auto simp: list_all_iff)
    have w: "int64_wrap (n + 1) = n + 1"
      using n by (intro int64_wrap_id) simp_all
    define c' where "c' = c\<lparr>citems := (k, VInt (n + 1)) # removeKey k xs\<rparr>"
    have run: "incrementValue k c = (None, c')"
      using Some v w
      by (simp add: incrementValue_def cache_Get_def cache_Set_def xs_def[symmetric] c'_def
          map_of_removeKey removeKey_twice)
    have kin: "k \<in> set (map fst xs)"
      using mem by force
    have set_eq: "set (k # removeAll k (map fst xs) @ ks) \<subseteq> set (map fst xs @ k # ks)"
      by auto
    have "length (remdups (k # removeAll k (map fst xs) @ ks)) \<le> length (remdups (map fst xs @ k # ks))"
      using card_mono[OF _ set_eq] unfolding length_remdups_card_conv by blast
    moreover have "list_all (\<lambda>p. case snd p of
                      VInt n \<Rightarrow> minInt64 \<le> n \<and> n + int (length ks) \<le> maxInt64
                    | VOther \<Rightarrow> False) (removeKey k xs)"
      using vals' by (simp add: list_all_iff removeKey_def)
    ultimately have r: "roomFor ks c'"
      using dist n len room
      by (simp add: roomFor_def c'_def cache_Keys_def removeKey_keys distinct_removeAll
          del: remdups.simps)
    have m: "countOf c k' \<le> countOf c' k'" for k'
      using Some v
      by (simp add: countOf_def c'_def xs_def[symmetric] map_of_removeKey_at)
    from run r m show ?thesis by blast
  qed
qed

lemma roomFor_run:
  assumes "roomFor (ks @ rest) c"
  shows "\<exists>c'. incrementValues ks c = (None, c') \<and> roomFor rest c' \<and>
           (\<forall>k'. countOf c k' \<le> countOf c' k')"
  using assms
proof (induction ks arbitrary: c)
  case Nil
  then show ?case by simp
next
  case (Cons k ks)
  from roomFor_step[of k "ks @ rest" c] Cons.prems
  obtain c1 where c1: "incrementValue k c = (None, c1)" "roomFor (ks @ rest) c1"
    "\<forall>k'. countOf c k' \<le> countOf c1 k'" by auto
  from Cons.IH[OF c1(2)] obtain c' where c': "incrementValues ks c1 = (None, c')"
    "roomFor rest c'" "\<forall>k'. countOf c1 k' \<le> countOf c' k'" by blast
  have "\<forall>k'. countOf c k' \<le> countOf c' k'"
    using c1(3) c'(3) order_trans by blast
  with c1(1) c'(1,2) show ?case by simp
qed

lemma map_of_butlast_last:
  assumes "distinct (map fst xs)" "xs \<noteq> []"
  shows "map_of (butlast xs) (fst (last xs)) = None"
proof -
  have "xs = butlast xs @ [last xs]"
    using assms(2) by simp
  then have "distinct (map fst (butlast xs) @ [fst (last xs)])"
    using assms(1) by (metis list.simps(8,9) map_append)
  then show ?thesis
    by (simp add: map_of_eq_None_iff)
qed

text \<open>
  What an eviction does, at any capacity: when the cache is full and the key is new,
  \<open>incrementValue\<close> drops the item at the back of the list, and the count observed
  for its key is 0 afterwards.
\<close>

lemma eviction_resets_count:
  assumes "distinct (cache_Keys c)" "citems c \<noteq> []" "csize c \<le> int (length (citems c))"
    and "k \<notin> set (cache_Keys c)"
  shows "observed (snd (incrementValue k c)) (fst (last (citems c))) = 0"
proof -
  have none: "map_of (citems c) k = None"
    using assms(4) by (simp add: cache_Keys_def map_of_eq_None_iff)
  have other: "fst (last (citems c)) \<noteq> k"
    using assms(2,4) by (metis cache_Keys_def last_in_set image_eqI list.set_map)
  have gone: "map_of (butlast (citems c)) (fst (last (citems c))) = None"
    using assms(1,2) by (intro map_of_butlast_last) (simp_all add: cache_Keys_def)
  show ?thesis
    using none other gone assms(3)
    by (simp add: observed_countOf countOf_def incrementValue_def cache_Get_def cache_Set_def)
qed

text \<open>
  Claim C8, as stated, fails: in a bucket whose caches hold two keys, the count
  observed for \<open>a\<close> is 1 after its increment and 0 after the increments of \<open>b\<close> and
  \<open>c\<close>, the second of which evicts \<open>a\<close>.
\<close>

theorem eviction_lowers_count:
  "observed (snd (incrementValues [''a''] (domains (hourTop_init 2)))) ''a'' = 1 \<and>
   observed (snd (incrementValues [''a'', ''b'', ''c''] (domains (hourTop_init 2)))) ''a'' = 0"
  by (simp add: observed_def lockedGetValue_def incrementValue_def cache_Get_def cache_Set_def
      hourTop_init_def gcache_New_def removeKey_def)

text \<open>
  Over a run of \<open>incrementValue\<close> calls that triggers no eviction at all and no
  overflow (\<open>roomFor\<close>: the keys of the cache and of the run fit the capacity), every
  call returns without an error, and the count observed for any key never decreases.
\<close>

lemma counts_monotone_without_eviction:
  assumes "roomFor (ks1 @ ks2) c"
  shows "\<exists>c1 c2. incrementValues ks1 c = (None, c1) \<and> incrementValues ks2 c1 = (None, c2) \<and>
           observed c key \<le> observed c1 key \<and> observed c1 key \<le> observed c2 key"
proof -
  from roomFor_run[OF assms] obtain c1 where c1: "incrementValues ks1 c = (None, c1)"
    "roomFor ks2 c1" "\<forall>k'. countOf c k' \<le> countOf c1 k'" by blast
  from roomFor_run[of ks2 "[]" c1] c1(2) obtain c2 where c2: "incrementValues ks2 c1 = (None, c2)"
    "\<forall>k'. countOf c1 k' \<le> countOf c2 k'" by auto
  show ?thesis
    using c1(1,3) c2 by (simp add: observed_countOf)
qed


subsection \<open>Facts about the sample world\<close>

lemma sample_entries_differ: "brokenEntry \<noteq> sampleEntry"
  by (simp add: brokenEntry_def sampleEntry_def)

lemma sample_encode: "encodeEntries (jsonEncode sampleWorld) [sampleEntry] [] = Inr ''g''"
  by (simp add: sampleWorld_def sampleEncode_def)

lemma sample_check: "checkBuffer sampleWorld [sampleEntry] ''g'' = Returns None"
  by (simp add: checkBuffer_def sampleWorld_def sampleDecodeByte_def)


subsection \<open>A flush that fails\<close>




subsection \<open>The self-check of a flush\<close>

lemma checkLoop_ok:
  assumes "i \<le> length buffer"
  shows "checkLoop buffer rs i = Returns (Inr (length buffer)) \<longleftrightarrow> rs = map Inr (drop i buffer)"
  using assms
proof (induction rs arbitrary: i)
  case Nil
  then show ?case by auto
next
  case (Cons r rs)
  show ?case
  proof (cases r)
    case (Inl err)
    then show ?thesis by auto
  next
    case (Inr entry)
    show ?thesis
    proof (cases "i < length buffer")
      case False
      then show ?thesis using Inr by simp
    next
      case True
      then have d: "drop i buffer = buffer ! i # drop (Suc i) buffer"
        by (simp add: Cons_nth_drop_Suc)
      show ?thesis
        using True Inr d Cons.IH[of "Suc i"] by auto
    qed
  qed
qed

lemma checkBuffer_ok:
  "checkBuffer w buffer b = Returns None \<longleftrightarrow> jsonDecoder w b = map Inr buffer"
  using checkLoop_ok[of 0 buffer "jsonDecoder w b"]
  by (auto simp: checkBuffer_def split: outcome.splits sum.splits)

text \<open>
  With any codec and a non-empty batch: the self-check \<open>checkBuffer\<close> passes exactly
  when decoding the given bytes yields the entries of the batch, entry for entry and
  with the same count; and \<open>flushToFile\<close> reports success exactly when every entry
  encodes, decoding the encoded bytes yields the batch in that sense, and opening and
  writing the file succeed.
\<close>

lemma flush_success_iff_self_check:
  assumes "buffer \<noteq> []"
  shows "(checkBuffer w buffer b = Returns None \<longleftrightarrow> jsonDecoder w b = map Inr buffer) \<and>
    ((\<exists>fs'. flushToFile w l buffer fs = Returns (None, fs')) \<longleftrightarrow>
     (\<exists>bytes. encodeEntries (jsonEncode w) buffer [] = Inr bytes \<and>
        jsonDecoder w bytes = map Inr buffer \<and>
        fst (osOpenFile w (logFile l) fs) = None \<and>
        fst (osWrite w (logFile l) bytes (snd (osOpenFile w (logFile l) fs))) = None))"
proof -
  have "(\<exists>fs'. flushToFile w l buffer fs = Returns (None, fs')) \<longleftrightarrow>
     (\<exists>bytes. encodeEntries (jsonEncode w) buffer [] = Inr bytes \<and>
        checkBuffer w buffer bytes = Returns None \<and>
        fst (osOpenFile w (logFile l) fs) = None \<and>
        fst (osWrite w (logFile l) bytes (snd (osOpenFile w (logFile l) fs))) = None)"
    using assms
    by (auto simp: flushToFile_def split: sum.splits outcome.splits option.splits prod.splits)
  then show ?thesis
    by (simp add: checkBuffer_ok)
qed


subsection \<open>Entries with a time in the future\<close>

lemma fillOnEntry_future:
  "time_After (Time entry) now \<Longrightarrow> fillOnEntry w queryLogSize now entry cache = (None, cache)"
  by (simp add: fillOnEntry_def)

lemma fillOnEntry_withoutFuture:
  "fillOnEntry (withoutFuture t w) = fillOnEntry w"
  by (intro ext) (simp add: fillOnEntry_def withoutFuture_def)

lemma loadRecords_filter_future:
  "loadRecords (fillOnEntry w n now) (\<lambda>_. True) tw nowL (filter (notFuture now) rs) s =
   loadRecords (fillOnEntry w n now) (\<lambda>_. True) tw nowL rs s"
proof (induction rs arbitrary: s)
  case Nil
  then show ?case by simp
next
  case (Cons r rs)
  show ?case
  proof (cases r)
    case (Inl err)
    then show ?thesis using Cons.IH by (simp add: notFuture_def)
  next
    case (Inr entry)
    show ?thesis
    proof (cases "time_After (Time entry) now")
      case True
      then show ?thesis using Inr Cons.IH
        by (simp add: notFuture_def fillOnEntry_future)
    next
      case False
      then show ?thesis using Inr Cons.IH
        by (simp add: notFuture_def split: prod.splits option.splits)
    qed
  qed
qed

lemma loadFiles_filter_future:
  "loadFiles (withoutFuture now w) fs (fillOnEntry w n now) (\<lambda>_. True) tw nowL files s =
   loadFiles w fs (fillOnEntry w n now) (\<lambda>_. True) tw nowL files s"
proof (induction files arbitrary: s)
  case Nil
  then show ?case by simp
next
  case (Cons name names)
  have dec: "jsonDecoder (withoutFuture now w) bytes = filter (notFuture now) (jsonDecoder w bytes)" for bytes
    by (simp add: withoutFuture_def)
  have os: "osNotExist (withoutFuture now w) = osNotExist w" "osOpen (withoutFuture now w) = osOpen w"
    by (simp_all add: withoutFuture_def)
  show ?case
    using Cons.IH
    by (simp add: dec os loadRecords_filter_future split: sum.splits prod.splits option.splits)
qed

lemma fillStatsLoop_filter_future:
  "fillStatsLoop w inc now vf (filter (\<lambda>entry. \<not> time_After (Time entry) now) es) d s =
   fillStatsLoop w inc now vf es d s"
proof (induction es arbitrary: d s)
  case Nil
  then show ?case by simp
next
  case (Cons entry es)
  show ?case
  proof (cases "time_After (Time entry) now")
    case True
    then show ?thesis using Cons.IH by simp
  next
    case False
    then show ?thesis using Cons.IH
      by (simp split: sum.splits outcome.splits prod.splits option.splits)
  qed
qed

lemma genericLoader_filter_future:
  "genericLoader (withoutFuture now w) fs l (fillOnEntry w n now) (\<lambda>_. True) tw nowLoader cache =
   genericLoader w fs l (fillOnEntry w n now) (\<lambda>_. True) tw nowLoader cache"
  unfolding genericLoader_def by (rule loadFiles_filter_future)

lemma fillFromFile_filter_future:
  "fillFromFile (withoutFuture now w) fs n now nowLoader l = fillFromFile w fs n now nowLoader l"
  unfolding fillFromFile_def fillOnEntry_withoutFuture genericLoader_filter_future ..

lemma fillStats_filter_future:
  "fillStatsFromQueryLog w inc now timeLimit
       (Some (filter (\<lambda>entry. \<not> time_After (Time entry) now) es)) d s =
   fillStatsFromQueryLog w inc now timeLimit (Some es) d s"
  by (simp add: fillStatsFromQueryLog_def fillStatsLoop_filter_future)

lemma filter_drop_future:
  assumes "time_After (Time entry) now"
  shows "filter (notFuture now) (pre @ Inr entry # post) = filter (notFuture now) (pre @ post)"
  using assms by (simp add: notFuture_def)

lemma loadRecords_drop_future:
  assumes "time_After (Time entry) now"
  shows "loadRecords (fillOnEntry w n now) (\<lambda>_. True) tw nowL (pre @ Inr entry # post) s =
         loadRecords (fillOnEntry w n now) (\<lambda>_. True) tw nowL (pre @ post) s"
  using loadRecords_filter_future[of w n now tw nowL "pre @ Inr entry # post" s]
    loadRecords_filter_future[of w n now tw nowL "pre @ post" s]
    filter_drop_future[OF assms, of pre post]
  by simp

lemma fillStats_drop_future:
  assumes "time_After (Time entry) now"
  shows "fillStatsFromQueryLog w inc now timeLimit (Some (pre @ entry # post)) d s =
         fillStatsFromQueryLog w inc now timeLimit (Some (pre @ post)) d s"
  using fillStats_filter_future[of w inc now timeLimit "pre @ entry # post" d s]
    fillStats_filter_future[of w inc now timeLimit "pre @ post" d s] assms
  by simp

text \<open>
  Claim C10. Let the time of an entry lie after \<open>now\<close>, the clock reading of the replay
  or of the backfill. The callback of the replay returns no error for it and leaves
  the recent cache as it is; a scan of records that contains the entry ends as the scan
  of the same records without it; \<open>fillFromFile\<close> gives the query log it gives when
  every such entry is absent from the files; and \<open>fillStatsFromQueryLog\<close> gives the
  aggregator and the counters it gives for the reader without the entry. The time
  window plays no part: the entry is dropped whether or not its age is within it.
\<close>

theorem future_entries_skipped:
  assumes "time_After (Time entry) now"
  shows "fillOnEntry w n now entry cache = (None, cache) \<and>
    loadRecords (fillOnEntry w n now) (\<lambda>_. True) tw nowLoader (pre @ Inr entry # post) cache =
      loadRecords (fillOnEntry w n now) (\<lambda>_. True) tw nowLoader (pre @ post) cache \<and>
    fillFromFile (withoutFuture now w) fs n now nowLoader l = fillFromFile w fs n now nowLoader l \<and>
    fillStatsFromQueryLog w inc now timeLimit (Some (es @ entry # es')) d s =
      fillStatsFromQueryLog w inc now timeLimit (Some (es @ es')) d s"
  by (intro conjI fillOnEntry_future loadRecords_drop_future fillFromFile_filter_future
      fillStats_drop_future assms)

theorem future_entries_skipped_witness:
  "time_After (Time futureEntry) 0 \<and>
   fillOnEntry sampleWorld 5000 0 futureEntry [] = (None, []) \<and>
   loadRecords (fillOnEntry sampleWorld 5000 0) (\<lambda>_. True) (24 * Hour) 0
       ([] @ Inr futureEntry # [Inr sampleEntry]) [] = (None, [sampleEntry]) \<and>
   fillStatsFromQueryLog sampleWorld (\<lambda>entry n. Suc n) 0 24
       (Some ([] @ futureEntry # [])) sampleDay (0::nat) = Returns (sampleDay, 0)"
proof -
  have fut: "time_After (Time futureEntry) 0"
    by (simp add: time_After_def futureEntry_def Hour_def)
  have rest: "loadRecords (fillOnEntry sampleWorld 5000 0) (\<lambda>_. True) (24 * Hour) 0
       ([] @ [Inr sampleEntry]) [] = (None, [sampleEntry])"
    by (simp add: fillOnEntry_def sampleWorld_def sampleUnpack_def sampleEntry_def sampleMsg_def
        time_After_def time_Sub_def Hour_def maxInt64_def minInt64_def)
  have none: "fillStatsFromQueryLog sampleWorld (\<lambda>entry n. Suc n) 0 24
       (Some ([] @ [])) sampleDay (0::nat) = Returns (sampleDay, 0)"
    by (simp add: fillStatsFromQueryLog_def)
  show ?thesis
    using fut rest none
      future_entries_skipped [OF fut, of sampleWorld 5000 "[]" "24 * Hour" 0 "[]"
        "[Inr sampleEntry]" fullDisk sampleLog "\<lambda>entry n. Suc n" 24 "[]" "[]" sampleDay "0::nat"]
    by simp
qed

subsection \<open>Records that fail to unpack\<close>

text \<open>
  Claim C3 at a concrete log file. The file holds two records, both inside the time
  window: \<open>brokenEntry\<close>, whose question bytes do not unpack, and then \<open>sampleEntry\<close>.
  The replay \<open>fillFromFile\<close> stops at the first record and leaves the recent cache
  empty, whereas the file with the second record alone gives a cache holding it. The
  backfill \<open>fillStatsFromQueryLog\<close> skips the first entry and ends as it does on the
  second entry alone.
\<close>

theorem replay_aborts_on_unpack_failure:
  "queryLogCache (fillFromFile sampleWorld (diskWith ''bg'') 5000 0 0 sampleLog) = [] \<and>
   queryLogCache (fillFromFile sampleWorld (diskWith ''g'') 5000 0 0 sampleLog) = [sampleEntry] \<and>
   fillStatsFromQueryLog sampleWorld (\<lambda>entry n. Suc n) 0 24
       (Some [brokenEntry, sampleEntry]) sampleDay (0::nat) =
     fillStatsFromQueryLog sampleWorld (\<lambda>entry n. Suc n) 0 24
       (Some [sampleEntry]) sampleDay (0::nat)"
  apply (intro conjI)
    apply (simp add: fillFromFile_def genericLoader_def sampleWorld_def diskWith_def sampleLog_def
      sampleDecodeByte_def fillOnEntry_def brokenEntry_def sampleUnpack_def sampleEntry_def
      time_After_def time_Sub_def Hour_def maxInt64_def minInt64_def)
   apply (simp add: fillFromFile_def genericLoader_def sampleWorld_def diskWith_def sampleLog_def
      sampleDecodeByte_def fillOnEntry_def sampleUnpack_def sampleEntry_def sampleMsg_def
      time_After_def time_Sub_def Hour_def maxInt64_def minInt64_def)
  apply (simp add: fillStatsFromQueryLog_def sampleWorld_def brokenEntry_def sampleUnpack_def
      sampleEntry_def time_After_def time_Unix_def int64_wrap_def)
  done

text \<open>
  A record that fails to decode is skipped by the scan, whatever the callback is.
\<close>

lemma loadRecords_skips_decode_failure:
  "loadRecords onEntry (\<lambda>_. True) tw now (pre @ Inl err # post) s =
   loadRecords onEntry (\<lambda>_. True) tw now (pre @ post) s"
  by (induction pre arbitrary: s) (auto split: sum.splits prod.splits option.splits)

subsection \<open>Rejecting an unsupported interval\<close>

text \<open>
  Claim C9. When the body of the request decodes to a configuration whose interval
  \<open>checkStatsInterval\<close> does not accept, the handler answers with the status
  \<open>StatusBadRequest\<close> and returns the stored configuration as it was: the enabled
  flag, the interval and the query log (on which \<open>Configure\<close> is not called) are
  unchanged.
\<close>

theorem handleQueryLogConfig_rejects_unsupported:
  assumes "decodeBody body = Inr reqData"
    and "\<not> checkStatsInterval (unat (Interval reqData))"
  shows "handleQueryLogConfig decodeBody checkStatsInterval Configure body cfg =
           (HttpError StatusBadRequest ''Unsupported interval'', cfg)"
  using assms by (simp add: handleQueryLogConfig_def)

theorem handleQueryLogConfig_rejects_unsupported_witness:
  "sampleDecodeBody sampleBody = Inr \<lparr>Enabled = False, Interval = 2\<rparr> \<and>
   \<not> sampleCheckStatsInterval (unat (Interval \<lparr>Enabled = False, Interval = 2\<rparr>)) \<and>
   handleQueryLogConfig sampleDecodeBody sampleCheckStatsInterval (\<lambda>conf ql. conf)
       sampleBody sampleConfig =
     (HttpError StatusBadRequest ''Unsupported interval'', sampleConfig)"
proof -
  have d: "sampleDecodeBody sampleBody = Inr \<lparr>Enabled = False, Interval = 2\<rparr>"
    by (simp add: sampleDecodeBody_def)
  have c: "\<not> sampleCheckStatsInterval (unat (Interval \<lparr>Enabled = False, Interval = 2\<rparr>))"
    by (simp add: sampleCheckStatsInterval_def)
  show ?thesis
    using d c
      handleQueryLogConfig_rejects_unsupported
        [of sampleDecodeBody sampleBody _ sampleCheckStatsInterval, OF d c]
    by simp
qed


subsection \<open>Resizing the aggregator\<close>

text \<open>
  Claim C2 at a concrete aggregator: three buckets, limit three. Resizing to one hour
  leaves two buckets under a limit of one. Resizing to two hours leaves one bucket
  under a limit of two, and recording an entry that is one hour old then panics, its
  hour index being within the limit and beyond the buckets.
\<close>

theorem resize_keeps_difference:
  "dayTop_init 3 1 sampleDay3 = Returns \<lparr>limit = 1, hours = [bucketOf ''new'', bucketOf ''mid'']\<rparr> \<and>
   dayTop_init 3 2 sampleDay3 = Returns \<lparr>limit = 2, hours = [bucketOf ''new'']\<rparr> \<and>
   addEntry sampleEntry sampleMsg Hour \<lparr>limit = 2, hours = [bucketOf ''new'']\<rparr> = Panics"
  by (simp add: dayTop_init_def sampleDay3_def sliceTo_def addEntry_def sample_hostname
      sample_question hoursOf_def go_quot_def time_Sub_def sampleEntry_def Hour_def
      maxInt64_def minInt64_def)

text \<open>
  In general, on an aggregator with one bucket per hour of its limit: shrinking keeps
  the first \<open>limit d - newLimit\<close> buckets, growing appends fresh buckets up to the
  new limit, and a rotation puts a fresh bucket in front and keeps the count.
\<close>

lemma dayTop_init_shrink:
  assumes "int (length (hours d)) = limit d" "0 \<le> newLimit" "newLimit < limit d"
  shows "dayTop_init sz newLimit d =
           Returns (d\<lparr>hours := take (nat (limit d - newLimit)) (hours d), limit := newLimit\<rparr>)"
proof -
  have "hours d \<noteq> []"
    using assms by auto
  then show ?thesis
    using assms by (simp add: dayTop_init_def sliceTo_def Let_def)
qed

lemma dayTop_init_grow:
  assumes "int (length (hours d)) = limit d" "0 < limit d" "limit d < newLimit"
  shows "dayTop_init sz newLimit d =
           Returns (d\<lparr>hours := hours d @ replicate (nat (newLimit - limit d)) (hourTop_init sz),
                      limit := newLimit\<rparr>)"
proof -
  have "hours d \<noteq> []"
    using assms by auto
  then show ?thesis
    using assms by (simp add: dayTop_init_def sliceTo_def Let_def)
qed

lemma rotateHourlyTop_count:
  assumes "int (length (hours d)) = limit d"
  shows "\<exists>d'. rotateHourlyTop sz d = Returns d' \<and> limit d' = limit d \<and>
           int (length (hours d')) = limit d \<and>
           hours d' = take (length (hours d)) (hourTop_init sz # hours d)"
proof -
  have "nat (limit d) = length (hours d)"
    using assms by simp
  then show ?thesis
    using assms by (simp add: rotateHourlyTop_def sliceTo_def)
qed

subsection \<open>Counts of a key that stays cached\<close>

lemma int64_wrap_grows: "n < maxInt64 \<Longrightarrow> n \<le> int64_wrap (n + 1)"
proof (cases "minInt64 \<le> n + 1")
  case True
  assume "n < maxInt64"
  with True have "int64_wrap (n + 1) = n + 1"
    by (intro int64_wrap_id) simp_all
  then show ?thesis by simp
next
  case False
  have "minInt64 \<le> int64_wrap (n + 1)"
    by (simp add: int64_wrap_def minInt64_def)
  with False show ?thesis by simp
qed

lemma map_of_butlast_mem:
  "k \<in> fst ` set (butlast xs) \<Longrightarrow> map_of (butlast xs) k = map_of xs k"
proof (induction xs)
  case Nil
  then show ?case by simp
next
  case (Cons x xs)
  show ?case
  proof (cases "xs = []")
    case True
    with Cons.prems show ?thesis by simp
  next
    case False
    show ?thesis
    proof (cases "k = fst x")
      case True
      with False show ?thesis by simp
    next
      case neq: False
      with False Cons.prems have "k \<in> fst ` set (butlast xs)" by auto
      then have "map_of (butlast xs) k = map_of xs k" by (rule Cons.IH)
      with False neq show ?thesis by simp
    qed
  qed
qed

lemma countOf_absent: "k \<notin> set (cache_Keys c) \<Longrightarrow> countOf c k = 0"
  by (simp add: countOf_def cache_Keys_def map_of_eq_None_iff[THEN iffD2])

lemma incrementValue_new:
  assumes "map_of (citems c) k = None"
  shows "incrementValue k c =
     (None, c\<lparr>citems := (k, VInt 1) #
        (if csize c \<le> int (length (citems c)) then butlast (citems c) else citems c)\<rparr>)"
  using assms by (simp add: incrementValue_def cache_Get_def cache_Set_def)

lemma incrementValue_int:
  assumes "map_of (citems c) k = Some (VInt n)"
  shows "incrementValue k c =
     (None, c\<lparr>citems := (k, VInt (int64_wrap (n + 1))) # removeKey k (citems c)\<rparr>)"
  using assms
  by (simp add: incrementValue_def cache_Get_def cache_Set_def map_of_removeKey removeKey_twice)

lemma incrementValue_other:
  assumes "map_of (citems c) k = Some VOther"
  shows "incrementValue k c =
     (Some NonIntValue, c\<lparr>citems := (k, VOther) # removeKey k (citems c)\<rparr>)"
  using assms by (simp add: incrementValue_def cache_Get_def)

text \<open>
  One call: the count of a key that the call does not evict, and does not overflow,
  is not lower after the call, whatever the call does to the other keys.
\<close>

lemma incrementValue_step_monotone:
  assumes kept: "key \<in> set (cache_Keys c) \<longrightarrow> key \<in> set (cache_Keys (snd (incrementValue k c)))"
    and below: "k = key \<longrightarrow> countOf c key < maxInt64"
  shows "countOf c key \<le> countOf (snd (incrementValue k c)) key"
proof (cases "map_of (citems c) k")
  case None
  note run = incrementValue_new[OF None]
  show ?thesis
  proof (cases "key = k")
    case True
    then show ?thesis using None run by (simp add: countOf_def)
  next
    case False
    show ?thesis
    proof (cases "key \<in> set (cache_Keys c)")
      case absent: False
      then have "countOf c key = 0" by (rule countOf_absent)
      moreover have "key \<notin> fst ` set (butlast (citems c))"
        using absent by (auto simp: cache_Keys_def dest: in_set_butlastD)
      then have "map_of (citems (snd (incrementValue k c))) key = None"
        using absent False run by (auto simp: cache_Keys_def map_of_eq_None_iff)
      ultimately show ?thesis by (simp add: countOf_def)
    next
      case True
      with kept have after: "key \<in> set (cache_Keys (snd (incrementValue k c)))" by simp
      show ?thesis
      proof (cases "csize c \<le> int (length (citems c))")
        case full: True
        then have "key \<in> fst ` set (butlast (citems c))"
          using after False run by (auto simp: cache_Keys_def)
        then have "map_of (butlast (citems c)) key = map_of (citems c) key"
          by (rule map_of_butlast_mem)
        then show ?thesis using full False run by (simp add: countOf_def)
      next
        case False
        then show ?thesis using \<open>key \<noteq> k\<close> run by (simp add: countOf_def)
      qed
    qed
  qed
next
  case (Some v)
  show ?thesis
  proof (cases v)
    case VOther
    with Some have run: "incrementValue k c =
        (Some NonIntValue, c\<lparr>citems := (k, VOther) # removeKey k (citems c)\<rparr>)"
      by (simp add: incrementValue_other)
    show ?thesis using Some VOther run
      by (simp add: countOf_def map_of_removeKey_at)
  next
    case (VInt n)
    with Some have run: "incrementValue k c =
        (None, c\<lparr>citems := (k, VInt (int64_wrap (n + 1))) # removeKey k (citems c)\<rparr>)"
      by (simp add: incrementValue_int)
    show ?thesis
    proof (cases "key = k")
      case True
      then have "n < maxInt64" using below Some VInt by (simp add: countOf_def)
      then have "n \<le> int64_wrap (n + 1)" by (rule int64_wrap_grows)
      then show ?thesis using True Some VInt run by (simp add: countOf_def)
    next
      case False
      then show ?thesis using run by (simp add: countOf_def map_of_removeKey_at)
    qed
  qed
qed

lemma survives_monotone:
  assumes "survives key ks c"
  shows "countOf c key \<le> countOf (snd (incrementValues ks c)) key"
  using assms
proof (induction ks arbitrary: c)
  case Nil
  then show ?case by simp
next
  case (Cons k ks)
  obtain e c1 where run: "incrementValue k c = (e, c1)" by (cases "incrementValue k c") auto
  from Cons.prems run have kept: "key \<in> set (cache_Keys c) \<longrightarrow> key \<in> set (cache_Keys c1)"
    and below: "k = key \<longrightarrow> countOf c key < maxInt64"
    and rest: "e = None \<longrightarrow> survives key ks c1"
    by simp_all
  have step: "countOf c key \<le> countOf c1 key"
    using incrementValue_step_monotone[of key c k] kept below run by simp
  show ?case
  proof (cases e)
    case None
    with rest have "countOf c1 key \<le> countOf (snd (incrementValues ks c1)) key"
      by (intro Cons.IH) simp
    with step None run show ?thesis by simp
  next
    case (Some err)
    with step run show ?thesis by simp
  qed
qed

text \<open>An observation reorders the cache and changes no count.\<close>

lemma lockedGetValue_keeps_map:
  "map_of (citems (snd (lockedGetValue key c))) = map_of (citems c)"
proof (cases "map_of (citems c) key")
  case None
  then show ?thesis by (simp add: lockedGetValue_def cache_Get_def)
next
  case (Some v)
  then have idem: "(map_of (citems c))(key \<mapsto> v) = map_of (citems c)"
    by (simp add: fun_upd_idem)
  have "citems (snd (lockedGetValue key c)) = (key, v) # removeKey key (citems c)"
    using Some by (cases v) (simp_all add: lockedGetValue_def cache_Get_def)
  then show ?thesis
    by (simp only: map_of_removeKey idem)
qed

lemma lockedGetValue_keeps_counts: "countOf (snd (lockedGetValue key c)) k = countOf c k"
  by (simp add: countOf_def lockedGetValue_keeps_map)

lemma lockedGetValue_count: "fst (fst (lockedGetValue key c)) = countOf c key"
  using observed_countOf[of c key] by (simp add: observed_def)

text \<open>
  Claim C8, amended. Take any cache of a bucket, at any point of its lifetime, and
  observe a key with \<open>lockedGetValue\<close>; then run any sequence of \<open>incrementValue\<close>
  calls from the cache the observation left, also one whose calls evict other keys
  at the fixed capacity; then observe the key again. If no call of the run evicts the
  key and none overflows its count (\<open>survives\<close>), the count the second observation
  reports is not lower than the count the first one reported.
\<close>

theorem count_monotone_while_cached:
  assumes "survives key ks (snd (lockedGetValue key c))"
  shows "fst (fst (lockedGetValue key c))
           \<le> fst (fst (lockedGetValue key
                   (snd (incrementValues ks (snd (lockedGetValue key c))))))"
  using survives_monotone[OF assms]
  by (simp add: lockedGetValue_count lockedGetValue_keeps_counts)

theorem count_monotone_while_cached_witness:
  "survives ''a'' [''a'', ''b'', ''a'', ''c'']
     (snd (lockedGetValue ''a'' (snd (incrementValues [''a''] (domains (hourTop_init 2)))))) \<and>
   fst (fst (lockedGetValue ''a'' (snd (incrementValues [''a''] (domains (hourTop_init 2))))))
     \<le> fst (fst (lockedGetValue ''a''
             (snd (incrementValues [''a'', ''b'', ''a'', ''c'']
                (snd (lockedGetValue ''a''
                   (snd (incrementValues [''a''] (domains (hourTop_init 2)))))))))) \<and>
   fst (lockedGetValue ''a'' (snd (incrementValues [''a''] (domains (hourTop_init 2)))))
     = (1, None) \<and>
   fst (lockedGetValue ''a''
          (snd (incrementValues [''a'', ''b'', ''a'', ''c'']
             (snd (lockedGetValue ''a''
                (snd (incrementValues [''a''] (domains (hourTop_init 2)))))))))
     = (3, None) \<and>
   fst (lockedGetValue ''b''
          (snd (incrementValues [''a'', ''b'', ''a'', ''c'']
             (snd (lockedGetValue ''a''
                (snd (incrementValues [''a''] (domains (hourTop_init 2)))))))))
     = (0, None)"
proof -
  have s: "survives ''a'' [''a'', ''b'', ''a'', ''c'']
     (snd (lockedGetValue ''a'' (snd (incrementValues [''a''] (domains (hourTop_init 2))))))"
    by (simp add: lockedGetValue_def incrementValue_def cache_Get_def cache_Set_def
        hourTop_init_def gcache_New_def removeKey_def cache_Keys_def countOf_def maxInt64_def
        int64_wrap_def)
  have v: "fst (lockedGetValue ''a'' (snd (incrementValues [''a''] (domains (hourTop_init 2)))))
     = (1, None)"
    "fst (lockedGetValue ''a''
          (snd (incrementValues [''a'', ''b'', ''a'', ''c'']
             (snd (lockedGetValue ''a''
                (snd (incrementValues [''a''] (domains (hourTop_init 2)))))))))
     = (3, None)"
    "fst (lockedGetValue ''b''
          (snd (incrementValues [''a'', ''b'', ''a'', ''c'']
             (snd (lockedGetValue ''a''
                (snd (incrementValues [''a''] (domains (hourTop_init 2)))))))))
     = (0, None)"
    by (simp_all add: lockedGetValue_def incrementValue_def cache_Get_def cache_Set_def
        hourTop_init_def gcache_New_def removeKey_def int64_wrap_def)
  show ?thesis
    using s v count_monotone_while_cached [OF s] by blast
qed

subsection \<open>Recording an entry after a resize to fewer hours\<close>

text \<open>
  Claim C6 at a concrete run of the program. The aggregator is built for three hours
  and then resized to two, which leaves one bucket under a limit of two. The sample
  entry, filtered, with a question named \<open>Example.COM.\<close> and a client, is one hour
  old: its hour index 1 is inside the retention window. Recording it indexes a bucket
  that is not there and panics, so no counter is incremented.
\<close>

theorem addEntry_panics_after_shrink:
  "dayTop_init 3 3 dayTop_zero =
     Returns \<lparr>limit = 3, hours = [hourTop_init 3, hourTop_init 3, hourTop_init 3]\<rparr> \<and>
   dayTop_init 3 2 \<lparr>limit = 3, hours = [hourTop_init 3, hourTop_init 3, hourTop_init 3]\<rparr> =
     Returns \<lparr>limit = 2, hours = [hourTop_init 3]\<rparr> \<and>
   hoursOf (time_Sub Hour (Time sampleEntry)) = 1 \<and>
   MsgQuestion sampleMsg \<noteq> [] \<and> hostnameOf sampleMsg = ''example.com'' \<and>
   addEntry sampleEntry sampleMsg Hour \<lparr>limit = 2, hours = [hourTop_init 3]\<rparr> = Panics"
  by (simp add: dayTop_init_def dayTop_zero_def sliceTo_def addEntry_def sample_hostname
      sample_question hoursOf_def go_quot_def time_Sub_def sampleEntry_def Hour_def
      maxInt64_def minInt64_def numeral_3_eq_3)

subsection \<open>The round trip of the specification's codec\<close>

declare digits.simps [simp del]

lemma digit_round:
  assumes "d < 10"
  shows "isDigit (digitChar d) \<and> digitVal (digitChar d) = d"
proof -
  from assms have "d = 0 \<or> d = 1 \<or> d = 2 \<or> d = 3 \<or> d = 4 \<or> d = 5 \<or> d = 6 \<or> d = 7 \<or> d = 8 \<or> d = 9"
    by arith
  then show ?thesis
    by (elim disjE) (simp_all add: isDigit_def digitChar_def digitVal_def)
qed

lemma digits_all: "list_all isDigit (digits n)"
proof (induction n rule: digits.induct)
  case (1 n)
  show ?case
  proof (cases "n < 10")
    case True
    then show ?thesis by (subst digits.simps) (simp add: digit_round)
  next
    case False
    then have "list_all isDigit (digits (n div 10))" by (rule 1)
    moreover have "isDigit (digitChar (n mod 10))" by (simp add: digit_round)
    ultimately show ?thesis using False by (subst digits.simps) simp
  qed
qed

lemma digits_nonempty: "digits n \<noteq> []"
  by (subst digits.simps) simp

lemma natOfDigits_snoc: "natOfDigits (ds @ [c]) = natOfDigits ds * 10 + digitVal c"
  by (simp add: natOfDigits_def)

lemma natOfDigits_digits: "natOfDigits (digits n) = n"
proof (induction n rule: digits.induct)
  case (1 n)
  show ?case
  proof (cases "n < 10")
    case True
    then show ?thesis by (subst digits.simps) (simp add: natOfDigits_def digit_round)
  next
    case False
    then have "natOfDigits (digits (n div 10)) = n div 10" by (rule 1)
    then show ?thesis using False
      by (subst digits.simps) (simp add: natOfDigits_snoc digit_round)
  qed
qed

lemma parseNat_digits:
  assumes "\<not> isDigit t"
  shows "parseNat (digits n @ t # r) = Some (n, t # r)"
proof -
  have all: "\<forall>c\<in>set (digits n). isDigit c"
    using digits_all[of n] by (simp add: list_all_iff)
  have tw: "takeWhile isDigit (digits n @ t # r) = digits n"
    using all assms by (simp add: takeWhile_append2)
  have dw: "dropWhile isDigit (digits n @ t # r) = t # r"
    using all assms by (simp add: dropWhile_append2)
  show ?thesis
    by (simp add: parseNat_def tw dw digits_nonempty natOfDigits_digits)
qed

lemma expect_append: "expect lit (lit @ r) = Some r"
  by (simp add: expect_def)

lemma parseBytes_enc: "parseBytes (encBytes s @ r) = Some (s, r)"
proof -
  have c: "\<not> isDigit CHR '':''" by (simp add: isDigit_def)
  have "parseNat (digits (length s) @ CHR '':'' # (s @ r)) = Some (length s, CHR '':'' # (s @ r))"
    using c by (rule parseNat_digits)
  then show ?thesis
    by (simp add: parseBytes_def encBytes_def expect_def)
qed

lemma parseBool_enc: "parseBool (encBool b @ r) = Some (b, r)"
  by (simp add: parseBool_def encBool_def)

lemma parseInt_enc:
  assumes "\<not> isDigit t"
  shows "parseInt (encInt i @ t # r) = Some (i, t # r)"
proof (cases "i < 0")
  case True
  then show ?thesis
    using parseNat_digits[OF assms, of "nat \<bar>i\<bar>" r]
    by (simp add: parseInt_def encInt_def)
next
  case False
  obtain c cs where d: "digits (nat \<bar>i\<bar>) = c # cs"
    using digits_nonempty[of "nat \<bar>i\<bar>"] by (cases "digits (nat \<bar>i\<bar>)") auto
  have "isDigit c"
    using digits_all[of "nat \<bar>i\<bar>"] d by simp
  then have "c \<noteq> CHR ''-''"
    by (auto simp: isDigit_def)
  then show ?thesis
    using False parseNat_digits[OF assms, of "nat \<bar>i\<bar>" r] d
    by (simp add: parseInt_def encInt_def)
qed

lemma decodeEntry_encodeEntry: "decodeEntry (encodeEntry e @ r) = Some (e, r)"
proof -
  have sp: "\<not> isDigit CHR '' ''" by (simp add: isDigit_def)
  have t: "parseInt (encInt (Time e) @ CHR '' '' # x) = Some (Time e, CHR '' '' # x)" for x
    using sp by (rule parseInt_enc)
  have d: "parseInt (encInt (Elapsed e) @ CHR '' '' # x) = Some (Elapsed e, CHR '' '' # x)" for x
    using sp by (rule parseInt_enc)
  show ?thesis
    by (simp add: decodeEntry_def encodeEntry_def expect_def parseBytes_enc parseBool_enc t d)
qed

lemma encodeEntry_nonempty: "encodeEntry e \<noteq> []"
  by (simp add: encodeEntry_def)

lemma decodeRecords_encoded:
  "length batch \<le> n \<Longrightarrow> decodeRecords n (concat (map encodeEntry batch)) = map Inr batch"
proof (induction batch arbitrary: n)
  case Nil
  then show ?case by (cases n) simp_all
next
  case (Cons e batch)
  then obtain m where n: "n = Suc m" and m: "length batch \<le> m"
    by (cases n) auto
  show ?case
    using Cons.IH[OF m] by (simp add: n decodeEntry_encodeEntry encodeEntry_nonempty)
qed

lemma length_encoded: "length batch \<le> length (concat (map encodeEntry batch))"
proof (induction batch)
  case Nil
  then show ?case by simp
next
  case (Cons e batch)
  have pos: "Suc 0 \<le> length (encodeEntry e)"
    using encodeEntry_nonempty[of e] by (cases "encodeEntry e") simp_all
  have l: "length (concat (map encodeEntry (e # batch))) =
      length (encodeEntry e) + length (concat (map encodeEntry batch))"
    by simp
  have "length (e # batch) = Suc (length batch)"
    by simp
  with Cons pos l show ?case by linarith
qed

lemma specDecoder_round_trip: "specDecoder (concat (map encodeEntry batch)) = map Inr batch"
  unfolding specDecoder_def by (rule decodeRecords_encoded) (rule length_encoded)

lemma encodeEntries_spec:
  "encodeEntries specEncode batch b = Inr (b @ concat (map encodeEntry batch))"
  by (induction batch arbitrary: b) (simp_all add: specEncode_def)

text \<open>
  Claim C4. With the codec of the specification, every batch of entries encodes, and
  decoding the encoded bytes yields the entries of the batch, entry for entry and
  with the same count; the self-check \<open>checkBuffer\<close> passes on those bytes. With any
  codec, the self-check passes exactly when decoding the given bytes yields the batch
  in that sense, and \<open>flushToFile\<close> reports success on a non-empty batch only when
  the entries encode and the self-check passes on the encoded bytes: a decode error, a
  differing entry and a differing count each end in an error or in a panic.
\<close>

theorem self_check_round_trip:
  "encodeEntries (jsonEncode (withSpecCodec w)) batch [] = Inr (concat (map encodeEntry batch)) \<and>
   jsonDecoder (withSpecCodec w) (concat (map encodeEntry batch)) = map Inr batch \<and>
   checkBuffer (withSpecCodec w) batch (concat (map encodeEntry batch)) = Returns None \<and>
   (\<forall>bytes. checkBuffer w' batch bytes = Returns None \<longleftrightarrow>
      jsonDecoder w' bytes = map Inr batch) \<and>
   (\<forall>fs'. flushToFile w' l batch fs = Returns (None, fs') \<longrightarrow>
      batch = [] \<or>
      (\<exists>bytes. encodeEntries (jsonEncode w') batch [] = Inr bytes \<and>
         checkBuffer w' batch bytes = Returns None \<and>
         jsonDecoder w' bytes = map Inr batch))"
proof -
  have enc: "encodeEntries (jsonEncode (withSpecCodec w)) batch [] =
      Inr (concat (map encodeEntry batch))"
    by (simp add: withSpecCodec_def encodeEntries_spec)
  have dec: "jsonDecoder (withSpecCodec w) (concat (map encodeEntry batch)) = map Inr batch"
    by (simp add: withSpecCodec_def specDecoder_round_trip)
  have chk: "checkBuffer (withSpecCodec w) batch (concat (map encodeEntry batch)) = Returns None"
    using dec by (simp add: checkBuffer_ok)
  have rep: "\<forall>bytes. checkBuffer w' batch bytes = Returns None \<longleftrightarrow>
      jsonDecoder w' bytes = map Inr batch"
    by (simp add: checkBuffer_ok)
  have only: "\<forall>fs'. flushToFile w' l batch fs = Returns (None, fs') \<longrightarrow>
      batch = [] \<or>
      (\<exists>bytes. encodeEntries (jsonEncode w') batch [] = Inr bytes \<and>
         checkBuffer w' batch bytes = Returns None \<and>
         jsonDecoder w' bytes = map Inr batch)"
  proof (intro allI impI)
    fix fs'
    assume ok: "flushToFile w' l batch fs = Returns (None, fs')"
    show "batch = [] \<or>
      (\<exists>bytes. encodeEntries (jsonEncode w') batch [] = Inr bytes \<and>
         checkBuffer w' batch bytes = Returns None \<and>
         jsonDecoder w' bytes = map Inr batch)"
    proof (cases "batch = []")
      case True
      then show ?thesis by simp
    next
      case False
      with ok obtain bytes where "encodeEntries (jsonEncode w') batch [] = Inr bytes"
        "checkBuffer w' batch bytes = Returns None"
        by (auto simp: flushToFile_def split: sum.splits outcome.splits option.splits prod.splits)
      then show ?thesis by (auto simp: checkBuffer_ok)
    qed
  qed
  from enc dec chk rep only show ?thesis by blast
qed

theorem self_check_round_trip_witness:
  "flushToFile sampleWorld sampleLog [sampleEntry] (diskWith []) =
     Returns (None, diskWith ''g'') \<and>
   jsonDecoder (withSpecCodec sampleWorld) (concat (map encodeEntry [sampleEntry, brokenEntry])) =
     map Inr [sampleEntry, brokenEntry] \<and>
   checkBuffer (withSpecCodec sampleWorld) [sampleEntry, brokenEntry]
     (concat (map encodeEntry [sampleEntry, brokenEntry])) = Returns None \<and>
   (\<exists>bytes. encodeEntries (jsonEncode sampleWorld) [sampleEntry] [] = Inr bytes \<and>
      checkBuffer sampleWorld [sampleEntry] bytes = Returns None \<and>
      jsonDecoder sampleWorld bytes = map Inr [sampleEntry])"
proof -
  have ok: "flushToFile sampleWorld sampleLog [sampleEntry] (diskWith []) =
     Returns (None, diskWith ''g'')"
    by (simp add: flushToFile_def checkBuffer_def sampleWorld_def sampleEncode_def
        sampleDecodeByte_def diskWith_def sampleLog_def appendFile_def)
  have ne: "[sampleEntry] \<noteq> []"
    by simp
  show ?thesis
    using ok ne
      self_check_round_trip [of sampleWorld "[sampleEntry, brokenEntry]" sampleWorld sampleLog "diskWith []"]
      self_check_round_trip [of sampleWorld "[sampleEntry]" sampleWorld sampleLog "diskWith []"]
    by blast
qed

end
